theory Spec2Isabelle
  imports Main "HOL-Library.Word"
begin

section \<open>Strings\<close>

text \<open>
  A JavaScript string is a sequence of UTF-16 code units. \<open>js\<close> turns an Isabelle
  string literal into such a sequence, for writing examples.
\<close>

type_synonym jschar = "16 word"
type_synonym jsstring = "jschar list"

definition js :: "string \<Rightarrow> jsstring" where
  "js = map of_char"

section \<open>The default sanitizer\<close>

text \<open>
  \<^verbatim>\<open>defaultSanitize(text) { return text.replace(/[\r\n]+[-=]{3,}[\r\n]*$/g, '').trim(); }\<close>

  The two character classes of the regular expression: \<^verbatim>\<open>[\r\n]\<close> and \<^verbatim>\<open>[-=]\<close>.
\<close>

definition is_line_break :: "jschar \<Rightarrow> bool" where
  "is_line_break c = (c = 0x0D \<or> c = 0x0A)"

definition is_rule_char :: "jschar \<Rightarrow> bool" where
  "is_rule_char c = (c = 0x2D \<or> c = 0x3D)"

text \<open>
  What \<^verbatim>\<open>String.prototype.trim\<close> removes: the WhiteSpace and LineTerminator code
  points of ECMAScript (TAB, VT, FF, SP, NBSP, ZWNBSP, the Unicode space separators,
  LF, CR, LS, PS).
\<close>

definition is_white_space :: "jschar \<Rightarrow> bool" where
  "is_white_space c = (c \<in> set [0x09, 0x0B, 0x0C, 0x20, 0xA0, 0xFEFF, 0x1680,
     0x2000, 0x2001, 0x2002, 0x2003, 0x2004, 0x2005, 0x2006, 0x2007, 0x2008, 0x2009, 0x200A,
     0x202F, 0x205F, 0x3000, 0x0A, 0x0D, 0x2028, 0x2029])"

text \<open>
  A backtracking matcher for a quantified character class \<^verbatim>\<open>cls{n,}\<close> followed by the
  rest of the pattern \<open>k\<close>: the greedy branch (take one more character) is tried first,
  then the continuation.
\<close>

fun rep :: "(jschar \<Rightarrow> bool) \<Rightarrow> nat \<Rightarrow> (jsstring \<Rightarrow> bool) \<Rightarrow> jsstring \<Rightarrow> bool" where
  "rep cls 0 k [] = k []"
| "rep cls (Suc n) k [] = False"
| "rep cls 0 k (c # cs) = ((cls c \<and> rep cls 0 k cs) \<or> k (c # cs))"
| "rep cls (Suc n) k (c # cs) = (cls c \<and> rep cls n k cs)"

text \<open>\<^verbatim>\<open>$\<close> without the multiline flag: only the end of the input.\<close>

definition end_of_input :: "jsstring \<Rightarrow> bool" where
  "end_of_input s = (s = [])"

text \<open>
  \<^verbatim>\<open>/[\r\n]+[-=]{3,}[\r\n]*$/\<close> tried at the start of the remaining input \<open>s\<close>.
\<close>

definition rule_regex :: "jsstring \<Rightarrow> bool" where
  "rule_regex = rep is_line_break 1 (rep is_rule_char 3 (rep is_line_break 0 end_of_input))"

text \<open>
  \<^verbatim>\<open>text.replace(re, '')\<close>: the start positions are tried from left to right, and
  the first match is replaced by the empty string. Every match ends at the end of the
  input, so nothing follows it, and the next search of the global flag starts at the end
  of the input, where the pattern (at least four characters) cannot match.
\<close>

fun replace_rule :: "jsstring \<Rightarrow> jsstring" where
  "replace_rule [] = []"
| "replace_rule (c # cs) = (if rule_regex (c # cs) then [] else c # replace_rule cs)"

definition trim :: "jsstring \<Rightarrow> jsstring" where
  "trim s = rev (dropWhile is_white_space (rev (dropWhile is_white_space s)))"

definition defaultSanitize :: "jsstring \<Rightarrow> jsstring" where
  "defaultSanitize text = trim (replace_rule text)"

section \<open>The renderer\<close>

text \<open>
  The parser supplied by the caller may throw: \<open>Inl\<close> is the exception. The other
  functions supplied by the caller (\<^verbatim>\<open>sanitize\<close>, \<^verbatim>\<open>onUpdate\<close>, \<^verbatim>\<open>onComplete\<close>) are taken
  to return normally and not to call back into the renderer.
\<close>

datatype exn = Exn jsstring

record user_options =
  opt_sanitize :: "(jsstring \<Rightarrow> jsstring) option"
  opt_useTextNode :: "bool option"
  opt_markdownParser :: "(jsstring \<Rightarrow> exn + jsstring) option"

record renderer_options =
  sanitize :: "jsstring \<Rightarrow> jsstring"
  useTextNode :: bool
  markdownParser :: "jsstring \<Rightarrow> exn + jsstring"

text \<open>The defaults set by the constructor.\<close>

definition resolve_options :: "user_options \<Rightarrow> renderer_options" where
  "resolve_options u =
     \<lparr>sanitize = (case opt_sanitize u of Some f \<Rightarrow> f | None \<Rightarrow> defaultSanitize),
      useTextNode = (case opt_useTextNode u of Some b \<Rightarrow> b | None \<Rightarrow> True),
      markdownParser = (case opt_markdownParser u of Some f \<Rightarrow> f | None \<Rightarrow> (\<lambda>text. Inr text))\<rparr>"

definition no_options :: user_options where
  "no_options = \<lparr>opt_sanitize = None, opt_useTextNode = None, opt_markdownParser = None\<rparr>"

text \<open>
  What the renderer does to the outside, in order: the two \<^verbatim>\<open>console.warn\<close> calls, the
  calls of the \<^verbatim>\<open>onUpdate\<close> and \<^verbatim>\<open>onComplete\<close> callbacks with their argument, and one
  entry for each run of \<^verbatim>\<open>renderToDOM\<close> with the text it wrote.
\<close>

datatype warning = AppendAfterFinish | MarkdownFallback

datatype effect = Warn warning | OnUpdate jsstring | OnComplete jsstring | Rendered jsstring

text \<open>
  The children of the container element: nothing (after \<^verbatim>\<open>innerHTML = ''\<close>), the text
  node with a given handle (after \<^verbatim>\<open>appendChild\<close>), markup (after \<^verbatim>\<open>innerHTML = parsed\<close>)
  or plain text (after \<^verbatim>\<open>textContent = text\<close>).
\<close>

datatype content = Empty | TextChild nat | Html jsstring | Plain jsstring

text \<open>
  The fields of the object, then the part of the browser it acts on: the container, the
  store of text nodes (handle to text), the pending animation-frame callbacks (handles,
  every callback being \<^verbatim>\<open>render\<close>), and the trace of effects. The two style hints set by
  \<^verbatim>\<open>initializeContainer\<close> play no part in what follows and are left out.
\<close>

record state =
  textBuffer :: jsstring
  lastRenderedText :: jsstring
  rafId :: "nat option"
  isFinished :: bool
  textNode :: "nat option"
  options :: renderer_options
  container :: content
  nodeText :: "nat \<Rightarrow> jsstring"
  nextNode :: nat
  scheduled :: "nat list"
  nextRaf :: nat
  trace :: "effect list"

definition emit :: "effect \<Rightarrow> state \<Rightarrow> state" where
  "emit e s = s\<lparr>trace := trace s @ [e]\<rparr>"

definition requestAnimationFrame :: "state \<Rightarrow> nat \<times> state" where
  "requestAnimationFrame s =
     (nextRaf s, s\<lparr>scheduled := scheduled s @ [nextRaf s], nextRaf := Suc (nextRaf s)\<rparr>)"

definition cancelAnimationFrame :: "nat \<Rightarrow> state \<Rightarrow> state" where
  "cancelAnimationFrame h s = s\<lparr>scheduled := removeAll h (scheduled s)\<rparr>"

definition initializeContainer :: "state \<Rightarrow> state" where
  "initializeContainer s =
     (let s1 = s\<lparr>container := Empty\<rparr>
      in if useTextNode (options s1)
         then s1\<lparr>textNode := Some (nextNode s1),
                 nodeText := (nodeText s1)(nextNode s1 := []),
                 nextNode := Suc (nextNode s1),
                 container := TextChild (nextNode s1)\<rparr>
         else s1)"

definition renderToDOM :: "state \<Rightarrow> state" where
  "renderToDOM s0 =
     (let s = emit (Rendered (textBuffer s0)) s0
      in case (useTextNode (options s), textNode s) of
           (True, Some n) \<Rightarrow> s\<lparr>nodeText := (nodeText s)(n := textBuffer s)\<rparr>
         | _ \<Rightarrow>
           (case markdownParser (options s) (textBuffer s) of
              Inr parsed \<Rightarrow> s\<lparr>container := Html parsed\<rparr>
            | Inl error \<Rightarrow> (emit (Warn MarkdownFallback) s)\<lparr>container := Plain (textBuffer s)\<rparr>))"

definition cleanup :: "state \<Rightarrow> state" where
  "cleanup s =
     (let s1 = (case rafId s of
                  Some h \<Rightarrow> (cancelAnimationFrame h s)\<lparr>rafId := None\<rparr>
                | None \<Rightarrow> s)
      in emit (OnComplete (textBuffer s1)) s1)"

text \<open>The closure \<^verbatim>\<open>render\<close> of \<^verbatim>\<open>startRenderLoop\<close>: the animation-frame callback.\<close>

definition render :: "state \<Rightarrow> state" where
  "render s =
     (let s1 = (if textBuffer s \<noteq> lastRenderedText s
                then let s' = renderToDOM s;
                         s'' = s'\<lparr>lastRenderedText := textBuffer s'\<rparr>
                     in emit (OnUpdate (textBuffer s'')) s''
                else s)
      in if \<not> isFinished s1
         then let (h, s2) = requestAnimationFrame s1 in s2\<lparr>rafId := Some h\<rparr>
         else cleanup (renderToDOM s1))"

definition startRenderLoop :: "state \<Rightarrow> state" where
  "startRenderLoop s = (let (h, s1) = requestAnimationFrame s in s1\<lparr>rafId := Some h\<rparr>)"

definition appendChunk :: "jsstring \<Rightarrow> state \<Rightarrow> state" where
  "appendChunk chunk s =
     (if isFinished s then emit (Warn AppendAfterFinish) s
      else s\<lparr>textBuffer := textBuffer s @ chunk\<rparr>)"

definition finish :: "state \<Rightarrow> state" where
  "finish s =
     (if isFinished s then s
      else let s1 = s\<lparr>isFinished := True\<rparr>
           in s1\<lparr>textBuffer := sanitize (options s1) (textBuffer s1)\<rparr>)"

definition getCurrentText :: "state \<Rightarrow> jsstring" where
  "getCurrentText s = textBuffer s"

definition reset :: "state \<Rightarrow> state" where
  "reset s =
     (let s1 = (case rafId s of
                  Some h \<Rightarrow> (cancelAnimationFrame h s)\<lparr>rafId := None\<rparr>
                | None \<Rightarrow> s);
          s2 = s1\<lparr>textBuffer := [], lastRenderedText := [], isFinished := False\<rparr>
      in startRenderLoop (initializeContainer s2))"

definition destroy :: "state \<Rightarrow> state" where
  "destroy s =
     (let s1 = (case rafId s of
                  Some h \<Rightarrow> (cancelAnimationFrame h s)\<lparr>rafId := None\<rparr>
                | None \<Rightarrow> s)
      in s1\<lparr>textNode := None, isFinished := True\<rparr>)"

text \<open>
  \<^verbatim>\<open>new StreamRenderer(container, options)\<close> on a container of its own, with no other
  animation-frame callback pending.
\<close>

definition constructor :: "user_options \<Rightarrow> state" where
  "constructor u =
     startRenderLoop (initializeContainer
       \<lparr>textBuffer = [], lastRenderedText = [], rafId = None, isFinished = False,
        textNode = None, options = resolve_options u, container = Empty,
        nodeText = (\<lambda>n. []), nextNode = 0, scheduled = [], nextRaf = 0, trace = []\<rparr>)"

text \<open>\<^verbatim>\<open>createMarkdownStreamRenderer(container, markdownParser, options)\<close>.\<close>

definition createMarkdownStreamRenderer :: "(jsstring \<Rightarrow> exn + jsstring) \<Rightarrow> user_options \<Rightarrow> state" where
  "createMarkdownStreamRenderer parser u =
     constructor (u\<lparr>opt_useTextNode := Some False, opt_markdownParser := Some parser\<rparr>)"

subsection \<open>The browser's animation frame and the calls of a lifecycle\<close>

text \<open>
  An animation frame runs the callbacks that were pending when it began, each once,
  skipping one that was cancelled in the meantime; a callback requested during the frame
  waits for the next frame.
\<close>

fun run_callbacks :: "nat list \<Rightarrow> state \<Rightarrow> state" where
  "run_callbacks [] s = s"
| "run_callbacks (h # hs) s =
     (if h \<in> set (scheduled s)
      then run_callbacks hs (render (s\<lparr>scheduled := removeAll h (scheduled s)\<rparr>))
      else run_callbacks hs s)"

definition frame :: "state \<Rightarrow> state" where
  "frame s = run_callbacks (scheduled s) s"

datatype call = AppendChunk jsstring | Finish | Frame | Destroy | Reset

fun step :: "call \<Rightarrow> state \<Rightarrow> state" where
  "step (AppendChunk chunk) s = appendChunk chunk s"
| "step Finish s = finish s"
| "step Frame s = frame s"
| "step Destroy s = destroy s"
| "step Reset s = reset s"

definition run :: "call list \<Rightarrow> state \<Rightarrow> state" where
  "run cs s = fold step cs s"

text \<open>The chunks of a sequence of calls, and the kinds of calls the statements speak of.\<close>

fun chunks_of :: "call list \<Rightarrow> jsstring list" where
  "chunks_of [] = []"
| "chunks_of (AppendChunk chunk # cs) = chunk # chunks_of cs"
| "chunks_of (c # cs) = chunks_of cs"

fun feeds :: "call \<Rightarrow> bool" where
  "feeds (AppendChunk chunk) = True"
| "feeds Frame = True"
| "feeds c = False"

fun late :: "call \<Rightarrow> bool" where
  "late (AppendChunk chunk) = True"
| "late Finish = True"
| "late c = False"

text \<open>The arguments of the callbacks and the texts rendered, read off a trace.\<close>

fun completions :: "effect list \<Rightarrow> jsstring list" where
  "completions [] = []"
| "completions (OnComplete x # t) = x # completions t"
| "completions (e # t) = completions t"

fun updates :: "effect list \<Rightarrow> jsstring list" where
  "updates [] = []"
| "updates (OnUpdate x # t) = x # updates t"
| "updates (e # t) = updates t"

fun renders :: "effect list \<Rightarrow> jsstring list" where
  "renders [] = []"
| "renders (Rendered x # t) = x # renders t"
| "renders (e # t) = renders t"

fun warnings :: "effect list \<Rightarrow> warning list" where
  "warnings [] = []"
| "warnings (Warn w # t) = w # warnings t"
| "warnings (e # t) = warnings t"

text \<open>
  Between two calls, the pending callbacks are exactly the one the object holds the handle
  of, and a renderer that is not finished has one pending.
\<close>

definition wf :: "state \<Rightarrow> bool" where
  "wf s = (scheduled s = (case rafId s of None \<Rightarrow> [] | Some h \<Rightarrow> [h]) \<and>
           (\<not> isFinished s \<longrightarrow> rafId s \<noteq> None))"

section \<open>The sanitizer: what the regular expression matches\<close>

lemma rep_det:
  assumes "\<And>c cs. cls c \<Longrightarrow> \<not> k (c # cs)"
  shows "rep cls n k s = (n \<le> length (takeWhile cls s) \<and> k (dropWhile cls s))"
proof (induction s arbitrary: n)
  case Nil
  then show ?case by (cases n) simp_all
next
  case (Cons c cs)
  then show ?case using assms by (cases n) auto
qed

lemma tail_det: "rep is_line_break 0 end_of_input s = list_all is_line_break s"
  by (induction s) (auto simp: end_of_input_def)

lemma rule_not_break: "is_rule_char c \<Longrightarrow> \<not> is_line_break c"
  by (auto simp: is_rule_char_def is_line_break_def)

lemma break_is_space: "is_line_break c \<Longrightarrow> is_white_space c"
  by (auto simp: is_white_space_def is_line_break_def)

lemma rule_not_space: "is_rule_char c \<Longrightarrow> \<not> is_white_space c"
  by (auto simp: is_rule_char_def is_white_space_def)

lemma run_det:
  "rep is_rule_char n (rep is_line_break 0 end_of_input) s =
     (n \<le> length (takeWhile is_rule_char s) \<and> list_all is_line_break (dropWhile is_rule_char s))"
proof -
  have "rep is_rule_char n (rep is_line_break 0 end_of_input) s =
      (n \<le> length (takeWhile is_rule_char s) \<and>
       rep is_line_break 0 end_of_input (dropWhile is_rule_char s))"
    by (rule rep_det [where cls = is_rule_char and k = "rep is_line_break 0 end_of_input"])
      (simp add: rule_not_break end_of_input_def)
  then show ?thesis by (simp add: tail_det)
qed

lemma rule_regex_det:
  "rule_regex s =
     (1 \<le> length (takeWhile is_line_break s) \<and>
      3 \<le> length (takeWhile is_rule_char (dropWhile is_line_break s)) \<and>
      list_all is_line_break (dropWhile is_rule_char (dropWhile is_line_break s)))"
proof -
  have "rule_regex s =
      (1 \<le> length (takeWhile is_line_break s) \<and>
       rep is_rule_char 3 (rep is_line_break 0 end_of_input) (dropWhile is_line_break s))"
    unfolding rule_regex_def
    by (rule rep_det [where cls = is_line_break
          and k = "rep is_rule_char 3 (rep is_line_break 0 end_of_input)"])
      (auto simp: run_det dest: rule_not_break)
  then show ?thesis by (simp add: run_det)
qed

lemma dropWhile_stop:
  "\<not> P y \<Longrightarrow> dropWhile P (xs @ y # ys) = dropWhile P xs @ y # ys"
  by (induction xs) simp_all

lemma rule_regex_block:
  assumes "a \<noteq> []" "list_all is_line_break a" "3 \<le> length b" "list_all is_rule_char b"
    "list_all is_line_break c"
  shows "rule_regex (a @ b @ c)"
proof -
  from assms obtain y ys where b: "b = y # ys" by (cases b) auto
  with assms have y: "\<not> is_line_break y" by (simp add: rule_not_break)
  have 1: "takeWhile is_line_break (a @ b @ c) = a"
    using assms y b by (simp add: takeWhile_append2 list_all_iff)
  have 2: "dropWhile is_line_break (a @ b @ c) = b @ c"
    using assms y b by (simp add: dropWhile_append2 list_all_iff)
  have 3: "takeWhile is_rule_char (b @ c) = b"
  proof (cases c)
    case Nil
    then show ?thesis using assms by (simp add: list_all_iff)
  next
    case (Cons z zs)
    with assms have "\<not> is_rule_char z" by (auto dest: rule_not_break)
    with Cons assms show ?thesis by (simp add: takeWhile_append2 list_all_iff)
  qed
  have 4: "dropWhile is_rule_char (b @ c) = c"
  proof (cases c)
    case Nil
    then show ?thesis using assms by (simp add: list_all_iff)
  next
    case (Cons z zs)
    with assms have "\<not> is_rule_char z" by (auto dest: rule_not_break)
    with Cons assms show ?thesis by (simp add: dropWhile_append2 list_all_iff)
  qed
  show ?thesis
    unfolding rule_regex_det 1 2 3 4 using assms by (cases a) auto
qed

lemma rule_regex_blocked:
  assumes "\<exists>x \<in> set q. \<not> is_line_break x" "a \<noteq> []" "list_all is_line_break a"
    "b \<noteq> []" "list_all is_rule_char b"
  shows "\<not> rule_regex (q @ a @ b @ c)"
proof -
  from assms obtain x xs where a: "a = x # xs" by (cases a) auto
  with assms have x: "\<not> is_rule_char x" by (auto dest: rule_not_break)
  from assms obtain y ys where b: "b = y # ys" by (cases b) auto
  with assms have y: "\<not> is_line_break y" by (simp add: rule_not_break)
  define q1 where "q1 = dropWhile is_line_break q"
  have "dropWhile is_line_break (q @ a @ b @ c) = q1 @ a @ b @ c"
    using assms(1) unfolding q1_def by (auto simp: dropWhile_append1)
  moreover have "dropWhile is_rule_char (q1 @ a @ b @ c) = dropWhile is_rule_char q1 @ a @ b @ c"
    using x by (simp add: a dropWhile_stop)
  ultimately have "y \<in> set (dropWhile is_rule_char (dropWhile is_line_break (q @ a @ b @ c)))"
    by (simp add: b)
  with y show ?thesis
    unfolding rule_regex_det by (auto simp: list_all_iff)
qed

lemma replace_rule_block:
  assumes "p = [] \<or> \<not> is_line_break (last p)"
    "a \<noteq> []" "list_all is_line_break a" "3 \<le> length b" "list_all is_rule_char b"
    "list_all is_line_break c"
  shows "replace_rule (p @ a @ b @ c) = p"
  using assms(1)
proof (induction p)
  case Nil
  have "rule_regex (a @ b @ c)" using assms by (intro rule_regex_block)
  then show ?case using assms(2) by (cases a) simp_all
next
  case (Cons x p)
  have "\<exists>z \<in> set (x # p). \<not> is_line_break z"
    using Cons.prems by (metis last_in_set list.distinct(1))
  moreover have "b \<noteq> []" using assms(4) by auto
  ultimately have "\<not> rule_regex ((x # p) @ a @ b @ c)"
    using assms by (intro rule_regex_blocked)
  moreover have "p = [] \<or> \<not> is_line_break (last p)"
    using Cons.prems by (cases p) auto
  ultimately show ?case using Cons.IH by simp
qed

lemma trim_trailing:
  "list_all is_white_space l \<Longrightarrow> trim (p @ l) = trim p"
proof -
  assume l: "list_all is_white_space l"
  show ?thesis
  proof (cases "list_all is_white_space p")
    case True
    then have "dropWhile is_white_space (p @ l) = []" and "dropWhile is_white_space p = []"
      using l by (simp_all add: list_all_iff dropWhile_eq_Nil_conv)
    then show ?thesis by (simp only: trim_def)
  next
    case False
    then have "dropWhile is_white_space (p @ l) = dropWhile is_white_space p @ l"
      by (auto simp: list_all_iff dropWhile_append1)
    moreover have "dropWhile is_white_space (rev l @ rev (dropWhile is_white_space p)) =
        dropWhile is_white_space (rev (dropWhile is_white_space p))"
      using l by (intro dropWhile_append2) (simp add: list_all_iff)
    ultimately show ?thesis by (simp add: trim_def)
  qed
qed

lemma split_trailing_breaks:
  "\<exists>p0 l. p = p0 @ l \<and> list_all is_line_break l \<and> (p0 = [] \<or> \<not> is_line_break (last p0))"
proof (induction p rule: rev_induct)
  case Nil
  then show ?case by simp
next
  case (snoc x xs)
  show ?case
  proof (cases "is_line_break x")
    case True
    from snoc obtain p0 l where "xs = p0 @ l" "list_all is_line_break l"
      "p0 = [] \<or> \<not> is_line_break (last p0)" by blast
    with True have "xs @ [x] = p0 @ (l @ [x]) \<and> list_all is_line_break (l @ [x]) \<and>
      (p0 = [] \<or> \<not> is_line_break (last p0))" by simp
    then show ?thesis by blast
  next
    case False
    then have "xs @ [x] = (xs @ [x]) @ [] \<and> list_all is_line_break [] \<and>
      (xs @ [x] = [] \<or> \<not> is_line_break (last (xs @ [x])))" by simp
    then show ?thesis by blast
  qed
qed

lemma sanitize_block:
  assumes "a \<noteq> []" "list_all is_line_break a" "3 \<le> length b" "list_all is_rule_char b"
    "list_all is_line_break c"
  shows "defaultSanitize (p @ a @ b @ c) = trim p"
proof -
  obtain p0 l where p: "p = p0 @ l" and l: "list_all is_line_break l"
    and p0: "p0 = [] \<or> \<not> is_line_break (last p0)"
    using split_trailing_breaks by blast
  have "replace_rule (p0 @ (l @ a) @ b @ c) = p0"
    using p0 assms l by (intro replace_rule_block) simp_all
  moreover have "list_all is_white_space l"
    using l by (auto simp: list_all_iff break_is_space)
  ultimately show ?thesis
    by (simp add: defaultSanitize_def p trim_trailing)
qed

lemma replace_rule_cases:
  "replace_rule t = t \<or> (\<exists>p s. t = p @ s \<and> rule_regex s \<and> replace_rule t = p)"
proof (induction t)
  case Nil
  then show ?case by simp
next
  case (Cons x t)
  show ?case
  proof (cases "rule_regex (x # t)")
    case True
    then have "x # t = [] @ (x # t) \<and> rule_regex (x # t) \<and> replace_rule (x # t) = []" by simp
    then show ?thesis by blast
  next
    case False
    from Cons show ?thesis
    proof
      assume "replace_rule t = t"
      with False show ?thesis by simp
    next
      assume "\<exists>p s. t = p @ s \<and> rule_regex s \<and> replace_rule t = p"
      then obtain p s where "t = p @ s" "rule_regex s" "replace_rule t = p" by blast
      with False have "x # t = (x # p) @ s \<and> rule_regex s \<and> replace_rule (x # t) = x # p"
        by simp
      then show ?thesis by blast
    qed
  qed
qed

lemma rule_regex_shape:
  assumes "rule_regex s"
  shows "\<exists>a b c. s = a @ b @ c \<and> a \<noteq> [] \<and> list_all is_line_break a \<and> 3 \<le> length b \<and>
     list_all is_rule_char b \<and> list_all is_line_break c"
proof -
  define a where "a = takeWhile is_line_break s"
  define b where "b = takeWhile is_rule_char (dropWhile is_line_break s)"
  define c where "c = dropWhile is_rule_char (dropWhile is_line_break s)"
  have "s = a @ b @ c" by (simp add: a_def b_def c_def)
  moreover have "a \<noteq> []" "3 \<le> length b" "list_all is_line_break c"
    using assms unfolding rule_regex_det a_def b_def c_def by auto
  moreover have "list_all is_line_break a" "list_all is_rule_char b"
    unfolding a_def b_def by (auto simp: list_all_iff dest: set_takeWhileD)
  ultimately show ?thesis by blast
qed


section \<open>The renderer: what each operation does to the state\<close>

lemma completions_append: "completions (t @ t') = completions t @ completions t'"
  by (induction t rule: completions.induct) simp_all

lemma updates_append: "updates (t @ t') = updates t @ updates t'"
  by (induction t rule: updates.induct) simp_all

lemma renders_append: "renders (t @ t') = renders t @ renders t'"
  by (induction t rule: renders.induct) simp_all

lemma warnings_append: "warnings (t @ t') = warnings t @ warnings t'"
  by (induction t rule: warnings.induct) simp_all

lemmas trace_append = completions_append updates_append renders_append warnings_append

lemma renderToDOM_fields:
  "textBuffer (renderToDOM s) = textBuffer s"
  "lastRenderedText (renderToDOM s) = lastRenderedText s"
  "rafId (renderToDOM s) = rafId s"
  "isFinished (renderToDOM s) = isFinished s"
  "textNode (renderToDOM s) = textNode s"
  "options (renderToDOM s) = options s"
  "scheduled (renderToDOM s) = scheduled s"
  "nextRaf (renderToDOM s) = nextRaf s"
  "nextNode (renderToDOM s) = nextNode s"
  by (simp_all add: renderToDOM_def emit_def Let_def split: bool.splits option.splits sum.splits)

lemma renderToDOM_trace:
  "completions (trace (renderToDOM s)) = completions (trace s)"
  "updates (trace (renderToDOM s)) = updates (trace s)"
  "renders (trace (renderToDOM s)) = renders (trace s) @ [textBuffer s]"
  by (simp_all add: renderToDOM_def emit_def Let_def trace_append
      split: bool.splits option.splits sum.splits)

lemma renderToDOM_text_node:
  "useTextNode (options s) \<Longrightarrow> textNode s = Some n \<Longrightarrow>
     renderToDOM s = s\<lparr>trace := trace s @ [Rendered (textBuffer s)],
                       nodeText := (nodeText s)(n := textBuffer s)\<rparr>"
  by (simp add: renderToDOM_def emit_def Let_def)

lemma renderToDOM_parsed:
  "\<not> useTextNode (options s) \<Longrightarrow> markdownParser (options s) (textBuffer s) = Inr parsed \<Longrightarrow>
     renderToDOM s = s\<lparr>trace := trace s @ [Rendered (textBuffer s)], container := Html parsed\<rparr>"
  by (simp add: renderToDOM_def emit_def Let_def)

lemma renderToDOM_fallback:
  "\<not> useTextNode (options s) \<Longrightarrow> markdownParser (options s) (textBuffer s) = Inl e \<Longrightarrow>
     renderToDOM s = s\<lparr>trace := trace s @ [Rendered (textBuffer s), Warn MarkdownFallback],
                       container := Plain (textBuffer s)\<rparr>"
  by (simp add: renderToDOM_def emit_def Let_def)

lemma cleanup_fields:
  "textBuffer (cleanup s) = textBuffer s"
  "lastRenderedText (cleanup s) = lastRenderedText s"
  "rafId (cleanup s) = None"
  "isFinished (cleanup s) = isFinished s"
  "textNode (cleanup s) = textNode s"
  "options (cleanup s) = options s"
  "scheduled (cleanup s) = (case rafId s of Some h \<Rightarrow> removeAll h (scheduled s) | None \<Rightarrow> scheduled s)"
  "nextRaf (cleanup s) = nextRaf s"
  "trace (cleanup s) = trace s @ [OnComplete (textBuffer s)]"
  "container (cleanup s) = container s"
  "nodeText (cleanup s) = nodeText s"
  by (simp_all add: cleanup_def emit_def cancelAnimationFrame_def Let_def split: option.splits)

lemma render_active:
  assumes "\<not> isFinished s"
  shows "textBuffer (render s) = textBuffer s"
    "lastRenderedText (render s) = textBuffer s"
    "rafId (render s) = Some (nextRaf s)"
    "\<not> isFinished (render s)"
    "textNode (render s) = textNode s"
    "options (render s) = options s"
    "scheduled (render s) = scheduled s @ [nextRaf s]"
    "nextRaf (render s) = Suc (nextRaf s)"
    "completions (trace (render s)) = completions (trace s)"
    "updates (trace (render s)) =
       updates (trace s) @ (if textBuffer s \<noteq> lastRenderedText s then [textBuffer s] else [])"
    "renders (trace (render s)) =
       renders (trace s) @ (if textBuffer s \<noteq> lastRenderedText s then [textBuffer s] else [])"
  using assms
  by (auto simp: render_def requestAnimationFrame_def emit_def Let_def renderToDOM_fields
      renderToDOM_trace trace_append)

lemma render_finished:
  assumes "isFinished s"
  shows "textBuffer (render s) = textBuffer s"
    "lastRenderedText (render s) = textBuffer s"
    "rafId (render s) = None"
    "isFinished (render s)"
    "textNode (render s) = textNode s"
    "options (render s) = options s"
    "scheduled (render s) =
       (case rafId s of Some h \<Rightarrow> removeAll h (scheduled s) | None \<Rightarrow> scheduled s)"
    "nextRaf (render s) = nextRaf s"
    "completions (trace (render s)) = completions (trace s) @ [textBuffer s]"
    "updates (trace (render s)) =
       updates (trace s) @ (if textBuffer s \<noteq> lastRenderedText s then [textBuffer s] else [])"
    "renders (trace (render s)) =
       renders (trace s) @ (if textBuffer s \<noteq> lastRenderedText s then [textBuffer s] else [])
         @ [textBuffer s]"
  using assms
  by (auto simp: render_def emit_def Let_def renderToDOM_fields cleanup_fields
      renderToDOM_trace trace_append split: option.splits)


lemma renderToDOM_container:
  "container (renderToDOM s) =
     (case (useTextNode (options s), textNode s) of
        (True, Some n) \<Rightarrow> container s
      | _ \<Rightarrow> (case markdownParser (options s) (textBuffer s) of
                Inr parsed \<Rightarrow> Html parsed | Inl e \<Rightarrow> Plain (textBuffer s)))"
  by (simp add: renderToDOM_def emit_def Let_def split: bool.splits option.splits sum.splits)

lemma renderToDOM_nodeText:
  "nodeText (renderToDOM s) =
     (case (useTextNode (options s), textNode s) of
        (True, Some n) \<Rightarrow> (nodeText s)(n := textBuffer s)
      | _ \<Rightarrow> nodeText s)"
  by (simp add: renderToDOM_def emit_def Let_def split: bool.splits option.splits sum.splits)

lemma render_finished_shown:
  assumes "isFinished s"
  shows "container (render s) = container (renderToDOM s)"
    "nodeText (render s) = nodeText (renderToDOM s)"
  using assms
  by (auto simp: render_def Let_def cleanup_fields renderToDOM_fields emit_def
      renderToDOM_container renderToDOM_nodeText split: bool.splits option.splits sum.splits)

lemma frame_pending:
  "scheduled s = [h] \<Longrightarrow> frame s = render (s\<lparr>scheduled := []\<rparr>)"
  by (simp add: frame_def)

lemma frame_idle: "scheduled s = [] \<Longrightarrow> frame s = s"
  by (simp add: frame_def)

lemma constructor_fields:
  "wf (constructor u)" "\<not> isFinished (constructor u)" "textBuffer (constructor u) = []"
  "trace (constructor u) = []" "options (constructor u) = resolve_options u"
  by (simp_all add: constructor_def startRenderLoop_def requestAnimationFrame_def
      initializeContainer_def wf_def Let_def)

lemma reset_fields:
  "wf s \<Longrightarrow> wf (reset s)" "\<not> isFinished (reset s)" "textBuffer (reset s) = []"
  "options (reset s) = options s"
  by (auto simp: reset_def startRenderLoop_def requestAnimationFrame_def
      initializeContainer_def cancelAnimationFrame_def wf_def Let_def split: option.splits)

lemma step_feed:
  assumes "wf s" "\<not> isFinished s" "feeds c"
  shows "wf (step c s)" "\<not> isFinished (step c s)"
    "textBuffer (step c s) = textBuffer s @ concat (chunks_of [c])"
    "completions (trace (step c s)) = completions (trace s)"
    "options (step c s) = options s"
proof -
  from assms obtain h where h: "rafId s = Some h" "scheduled s = [h]"
    by (auto simp: wf_def)
  have "wf (step c s) \<and> \<not> isFinished (step c s) \<and>
    textBuffer (step c s) = textBuffer s @ concat (chunks_of [c]) \<and>
    completions (trace (step c s)) = completions (trace s) \<and> options (step c s) = options s"
  proof (cases c)
    case (AppendChunk chunk)
    then show ?thesis using assms by (simp add: appendChunk_def wf_def)
  next
    case Frame
    then show ?thesis using assms h
      by (simp add: frame_pending [OF h(2)] render_active wf_def)
  qed (use assms in simp_all)
  then show "wf (step c s)" "\<not> isFinished (step c s)"
    "textBuffer (step c s) = textBuffer s @ concat (chunks_of [c])"
    "completions (trace (step c s)) = completions (trace s)"
    "options (step c s) = options s" by simp_all
qed

lemma chunks_of_append: "chunks_of (cs @ cs') = chunks_of cs @ chunks_of cs'"
  by (induction cs rule: chunks_of.induct) simp_all

lemma run_append: "run (cs @ cs') s = run cs' (run cs s)"
  by (simp add: run_def)

lemma run_feed:
  assumes "list_all feeds cs" "wf s" "\<not> isFinished s"
  shows "wf (run cs s) \<and> \<not> isFinished (run cs s) \<and>
    textBuffer (run cs s) = textBuffer s @ concat (chunks_of cs) \<and>
    completions (trace (run cs s)) = completions (trace s) \<and> options (run cs s) = options s"
  using assms
proof (induction cs arbitrary: s)
  case Nil
  then show ?case by (simp add: run_def)
next
  case (Cons c cs)
  from Cons.prems have c: "feeds c" and cs: "list_all feeds cs" by simp_all
  note st = step_feed [OF Cons.prems(2,3) c]
  have "run (c # cs) s = run cs (step c s)" by (simp add: run_def)
  moreover have "chunks_of (c # cs) = chunks_of [c] @ chunks_of cs"
    using chunks_of_append [of "[c]" cs] by simp
  ultimately show ?case
    using Cons.IH [OF cs st(1,2)] st(3,4,5) by simp
qed


lemma finish_active:
  assumes "wf s" "\<not> isFinished s"
  shows "wf (finish s)" "isFinished (finish s)" "rafId (finish s) \<noteq> None"
    "textBuffer (finish s) = sanitize (options s) (textBuffer s)"
    "trace (finish s) = trace s" "options (finish s) = options s"
  using assms by (simp_all add: finish_def wf_def Let_def)

lemma step_late:
  assumes "wf s" "isFinished s" "rafId s \<noteq> None" "late c"
  shows "wf (step c s)" "isFinished (step c s)" "rafId (step c s) \<noteq> None"
    "textBuffer (step c s) = textBuffer s"
    "completions (trace (step c s)) = completions (trace s)"
    "options (step c s) = options s"
  using assms
  by (cases c; simp add: appendChunk_def finish_def emit_def wf_def trace_append)+

lemma run_late:
  assumes "list_all late cs" "wf s" "isFinished s" "rafId s \<noteq> None"
  shows "wf (run cs s) \<and> isFinished (run cs s) \<and> rafId (run cs s) \<noteq> None \<and>
    textBuffer (run cs s) = textBuffer s \<and>
    completions (trace (run cs s)) = completions (trace s) \<and> options (run cs s) = options s"
  using assms
proof (induction cs arbitrary: s)
  case Nil
  then show ?case by (simp add: run_def)
next
  case (Cons c cs)
  from Cons.prems have c: "late c" and cs: "list_all late cs" by simp_all
  note st = step_late [OF Cons.prems(2,3,4) c]
  have "run (c # cs) s = run cs (step c s)" by (simp add: run_def)
  then show ?case
    using Cons.IH [OF cs st(1,2,3)] st(4,5,6) by simp
qed

lemma terminal_frame:
  assumes "wf s" "isFinished s" "rafId s \<noteq> None"
  shows "wf (frame s)" "isFinished (frame s)" "rafId (frame s) = None"
    "textBuffer (frame s) = textBuffer s"
    "completions (trace (frame s)) = completions (trace s) @ [textBuffer s]"
    "options (frame s) = options s"
proof -
  from assms obtain h where h: "rafId s = Some h" "scheduled s = [h]"
    by (auto simp: wf_def)
  have fin: "isFinished (s\<lparr>scheduled := []\<rparr>)" using assms by simp
  show "wf (frame s)" "isFinished (frame s)" "rafId (frame s) = None"
    "textBuffer (frame s) = textBuffer s"
    "completions (trace (frame s)) = completions (trace s) @ [textBuffer s]"
    "options (frame s) = options s"
    using h by (simp_all add: frame_pending [OF h(2)] render_finished [OF fin] wf_def)
qed

lemma step_done:
  assumes "wf s" "isFinished s" "rafId s = None" "c \<noteq> Reset"
  shows "wf (step c s)" "isFinished (step c s)" "rafId (step c s) = None"
    "textBuffer (step c s) = textBuffer s"
    "completions (trace (step c s)) = completions (trace s)"
    "options (step c s) = options s"
proof -
  from assms have idle: "scheduled s = []" by (simp add: wf_def)
  show "wf (step c s)" "isFinished (step c s)" "rafId (step c s) = None"
    "textBuffer (step c s) = textBuffer s"
    "completions (trace (step c s)) = completions (trace s)"
    "options (step c s) = options s"
    using assms
    by (cases c; simp add: appendChunk_def finish_def destroy_def emit_def wf_def
        trace_append frame_idle [OF idle])+
qed

lemma run_done:
  assumes "Reset \<notin> set cs" "wf s" "isFinished s" "rafId s = None"
  shows "wf (run cs s) \<and> isFinished (run cs s) \<and> rafId (run cs s) = None \<and>
    textBuffer (run cs s) = textBuffer s \<and>
    completions (trace (run cs s)) = completions (trace s) \<and> options (run cs s) = options s"
  using assms
proof (induction cs arbitrary: s)
  case Nil
  then show ?case by (simp add: run_def)
next
  case (Cons c cs)
  from Cons.prems have c: "c \<noteq> Reset" and cs: "Reset \<notin> set cs" by auto
  note st = step_done [OF Cons.prems(2,3,4) c]
  have "run (c # cs) s = run cs (step c s)" by (simp add: run_def)
  then show ?case
    using Cons.IH [OF cs st(1,2,3)] st(4,5,6) by simp
qed

lemma destroy_fields:
  assumes "wf s"
  shows "wf (destroy s)" "isFinished (destroy s)" "rafId (destroy s) = None"
    "textBuffer (destroy s) = textBuffer s" "trace (destroy s) = trace s"
    "options (destroy s) = options s" "textNode (destroy s) = None" "scheduled (destroy s) = []"
  using assms
  by (auto simp: destroy_def cancelAnimationFrame_def wf_def Let_def split: option.splits)

lemma lifecycle_completed:
  assumes "list_all feeds cs1" "list_all late cs2" "Reset \<notin> set cs3" "wf s" "\<not> isFinished s"
  shows "completions (trace (run (cs1 @ Finish # cs2 @ Frame # cs3) s)) =
      completions (trace s) @ [sanitize (options s) (textBuffer s @ concat (chunks_of cs1))]"
    and "textBuffer (run (cs1 @ Finish # cs2 @ Frame # cs3) s) =
      sanitize (options s) (textBuffer s @ concat (chunks_of cs1))"
proof -
  define s1 where "s1 = run cs1 s"
  define s2 where "s2 = finish s1"
  define s3 where "s3 = run cs2 s2"
  define s4 where "s4 = frame s3"
  have run: "run (cs1 @ Finish # cs2 @ Frame # cs3) s = run cs3 s4"
    by (simp add: run_def s1_def s2_def s3_def s4_def)
  have 1: "wf s1" "\<not> isFinished s1" "textBuffer s1 = textBuffer s @ concat (chunks_of cs1)"
    "completions (trace s1) = completions (trace s)" "options s1 = options s"
    using run_feed [OF assms(1,4,5)] by (simp_all add: s1_def)
  have 2: "wf s2" "isFinished s2" "rafId s2 \<noteq> None"
    "textBuffer s2 = sanitize (options s) (textBuffer s @ concat (chunks_of cs1))"
    "completions (trace s2) = completions (trace s)"
    using finish_active [OF 1(1,2)] 1(3,4,5) by (simp_all add: s2_def)
  have 3: "wf s3" "isFinished s3" "rafId s3 \<noteq> None" "textBuffer s3 = textBuffer s2"
    "completions (trace s3) = completions (trace s2)"
    using run_late [OF assms(2) 2(1,2,3)] by (simp_all add: s3_def)
  have 4: "wf s4" "isFinished s4" "rafId s4 = None" "textBuffer s4 = textBuffer s3"
    "completions (trace s4) = completions (trace s3) @ [textBuffer s3]"
    using terminal_frame [OF 3(1,2,3)] by (simp_all add: s4_def)
  have 5: "textBuffer (run cs3 s4) = textBuffer s4"
    "completions (trace (run cs3 s4)) = completions (trace s4)"
    using run_done [OF assms(3) 4(1,2,3)] by simp_all
  show "completions (trace (run (cs1 @ Finish # cs2 @ Frame # cs3) s)) =
      completions (trace s) @ [sanitize (options s) (textBuffer s @ concat (chunks_of cs1))]"
    by (simp add: run 5 4 3 2)
  show "textBuffer (run (cs1 @ Finish # cs2 @ Frame # cs3) s) =
      sanitize (options s) (textBuffer s @ concat (chunks_of cs1))"
    by (simp add: run 5 4 3 2)
qed

lemma lifecycle_destroyed:
  assumes "list_all feeds cs1" "list_all late cs2" "Reset \<notin> set cs3" "wf s" "\<not> isFinished s"
  shows "completions (trace (run (cs1 @ Destroy # cs3) s)) = completions (trace s)"
    and "completions (trace (run (cs1 @ Finish # cs2 @ Destroy # cs3) s)) = completions (trace s)"
proof -
  define s1 where "s1 = run cs1 s"
  have 1: "wf s1" "\<not> isFinished s1" "completions (trace s1) = completions (trace s)"
    using run_feed [OF assms(1,4,5)] by (simp_all add: s1_def)
  have "run (cs1 @ Destroy # cs3) s = run cs3 (destroy s1)"
    by (simp add: run_def s1_def)
  moreover have "completions (trace (run cs3 (destroy s1))) = completions (trace (destroy s1))"
    using run_done [OF assms(3)] destroy_fields [OF 1(1)] by simp
  ultimately show "completions (trace (run (cs1 @ Destroy # cs3) s)) = completions (trace s)"
    using destroy_fields [OF 1(1)] 1(3) by simp
  define s3 where "s3 = run cs2 (finish s1)"
  have 3: "wf s3" "completions (trace s3) = completions (trace s)"
    using run_late [OF assms(2), of "finish s1"] finish_active [OF 1(1,2)] 1(3)
    by (simp_all add: s3_def)
  have "run (cs1 @ Finish # cs2 @ Destroy # cs3) s = run cs3 (destroy s3)"
    by (simp add: run_def s1_def s3_def)
  moreover have "completions (trace (run cs3 (destroy s3))) = completions (trace (destroy s3))"
    using run_done [OF assms(3)] destroy_fields [OF 3(1)] by simp
  ultimately show "completions (trace (run (cs1 @ Finish # cs2 @ Destroy # cs3) s)) =
      completions (trace s)"
    using destroy_fields [OF 3(1)] 3(2) by simp
qed

text \<open>Every call keeps the invariant, so it holds in each state reached from the constructor.\<close>

lemma wf_step: "wf s \<Longrightarrow> wf (step c s)"
proof (cases c)
  case (AppendChunk chunk)
  assume "wf s"
  then show ?thesis by (simp add: AppendChunk appendChunk_def emit_def wf_def)
next
  case Finish
  assume "wf s"
  then show ?thesis by (simp add: Finish finish_def wf_def Let_def)
next
  case Frame
  assume wf: "wf s"
  show ?thesis
  proof (cases "rafId s")
    case None
    with wf have "scheduled s = []" by (simp add: wf_def)
    with wf show ?thesis by (simp add: Frame frame_idle)
  next
    case (Some h)
    with wf have h: "scheduled s = [h]" by (simp add: wf_def)
    show ?thesis
    proof (cases "isFinished s")
      case True
      with wf Some show ?thesis using terminal_frame(1) [of s] by (simp add: Frame)
    next
      case False
      with wf show ?thesis using step_feed(1) [of s Frame] by (simp add: Frame)
    qed
  qed
next
  case Destroy
  assume "wf s"
  then show ?thesis by (simp add: Destroy destroy_fields)
next
  case Reset
  assume "wf s"
  then show ?thesis by (simp add: Reset reset_fields)
qed

lemma wf_run: "wf s \<Longrightarrow> wf (run cs s)"
proof (induction cs arbitrary: s)
  case Nil
  then show ?case by (simp add: run_def)
next
  case (Cons c cs)
  have "run (c # cs) s = run cs (step c s)" by (simp add: run_def)
  with Cons wf_step [of s c] show ?case by simp
qed

lemma wf_reachable: "wf (run cs (constructor u))"
  by (simp add: wf_run constructor_fields)

lemma reset_trace: "trace (reset s) = trace s"
  by (simp add: reset_def startRenderLoop_def requestAnimationFrame_def
      initializeContainer_def cancelAnimationFrame_def Let_def split: option.splits)

lemma lifecycle_reset:
  assumes "list_all feeds cs1" "list_all late cs2" "list_all feeds cs4" "wf s" "\<not> isFinished s"
  shows "completions (trace (run (cs1 @ Finish # cs2 @ Reset # cs4) s)) = completions (trace s)"
proof -
  define s1 where "s1 = run cs1 s"
  have 1: "wf s1" "\<not> isFinished s1" "completions (trace s1) = completions (trace s)"
    using run_feed [OF assms(1,4,5)] by (simp_all add: s1_def)
  define s3 where "s3 = run cs2 (finish s1)"
  have 3: "wf s3" "completions (trace s3) = completions (trace s)"
    using run_late [OF assms(2), of "finish s1"] finish_active [OF 1(1,2)] 1(3)
    by (simp_all add: s3_def)
  have r: "wf (reset s3)" "\<not> isFinished (reset s3)"
    using reset_fields [of s3] 3(1) by simp_all
  have "run (cs1 @ Finish # cs2 @ Reset # cs4) s = run cs4 (reset s3)"
    by (simp add: run_def s1_def s3_def)
  then show ?thesis
    using run_feed [OF assms(3) r] 3(2) by (simp add: reset_trace)
qed

lemmas sanitize_eval = defaultSanitize_def trim_def rule_regex_def js_def is_line_break_def
  is_rule_char_def is_white_space_def end_of_input_def numeral_3_eq_3

lemma block_has_break:
  assumes "t = p @ a @ b @ c" "a \<noteq> []" "list_all is_line_break a"
  shows "list_ex is_line_break t"
proof -
  from assms(2) obtain x xs where "a = x # xs" by (cases a) auto
  with assms show ?thesis by (simp add: list_ex_iff)
qed

lemma trim_keeps_rule:
  assumes "b \<noteq> []" "list_all is_rule_char b"
  shows "trim (x @ b) = dropWhile is_white_space x @ b"
proof -
  from assms obtain y ys where b: "b = y # ys" by (cases b) auto
  with assms have y: "\<not> is_white_space y" by (simp add: rule_not_space)
  from assms obtain zs z where z: "b = zs @ [z]" by (cases b rule: rev_cases) auto
  with assms have nz: "\<not> is_white_space z" by (simp add: rule_not_space)
  have "dropWhile is_white_space (x @ b) = dropWhile is_white_space x @ b"
    using y by (simp add: b dropWhile_stop)
  moreover have "dropWhile is_white_space (rev (dropWhile is_white_space x @ zs @ [z])) =
      rev (dropWhile is_white_space x @ zs @ [z])"
    using nz by simp
  ultimately show ?thesis by (simp add: trim_def z)
qed

lemmas renderer_eval = constructor_def createMarkdownStreamRenderer_def startRenderLoop_def
  requestAnimationFrame_def initializeContainer_def resolve_options_def no_options_def Let_def
  run_def appendChunk_def finish_def frame_def render_def renderToDOM_def cleanup_def
  cancelAnimationFrame_def emit_def destroy_def reset_def getCurrentText_def wf_def

lemma fold_appendChunk:
  "\<not> isFinished s \<Longrightarrow>
     fold appendChunk chunks s = s\<lparr>textBuffer := textBuffer s @ concat chunks\<rparr>"
  by (induction chunks arbitrary: s) (simp_all add: appendChunk_def)

lemma render_active_shown:
  assumes "\<not> isFinished s"
  shows "container (render s) =
      (if textBuffer s \<noteq> lastRenderedText s then container (renderToDOM s) else container s)"
    "nodeText (render s) =
      (if textBuffer s \<noteq> lastRenderedText s then nodeText (renderToDOM s) else nodeText s)"
    "warnings (trace (render s)) =
      (if textBuffer s \<noteq> lastRenderedText s then warnings (trace (renderToDOM s))
       else warnings (trace s))"
  using assms
  by (auto simp: render_def requestAnimationFrame_def emit_def Let_def renderToDOM_fields
      trace_append)

lemma terminal_frame_shown:
  assumes "wf s" "isFinished s" "rafId s \<noteq> None"
  shows "scheduled (frame s) = []"
    "renders (trace (frame s)) =
       renders (trace s) @ (if textBuffer s \<noteq> lastRenderedText s then [textBuffer s] else [])
         @ [textBuffer s]"
    "container (frame s) = container (renderToDOM s)"
    "nodeText (frame s) = nodeText (renderToDOM s)"
    "frame (frame s) = frame s"
proof -
  from assms obtain h where h: "rafId s = Some h" "scheduled s = [h]"
    by (auto simp: wf_def)
  have fin: "isFinished (s\<lparr>scheduled := []\<rparr>)" using assms by simp
  show idle: "scheduled (frame s) = []"
    using h by (simp add: frame_pending [OF h(2)] render_finished [OF fin])
  show "renders (trace (frame s)) =
       renders (trace s) @ (if textBuffer s \<noteq> lastRenderedText s then [textBuffer s] else [])
         @ [textBuffer s]"
    by (simp add: frame_pending [OF h(2)] render_finished [OF fin])
  show "container (frame s) = container (renderToDOM s)"
    "nodeText (frame s) = nodeText (renderToDOM s)"
    by (simp_all add: frame_pending [OF h(2)] render_finished_shown [OF fin]
        renderToDOM_container renderToDOM_nodeText split: bool.splits option.splits sum.splits)
  show "frame (frame s) = frame s"
    using idle by (rule frame_idle)
qed

lemma run_finished:
  assumes "Reset \<notin> set cs" "isFinished s"
  shows "isFinished (run cs s)"
  using assms
proof (induction cs arbitrary: s)
  case Nil
  then show ?case by (simp add: run_def)
next
  case (Cons c cs)
  have "isFinished (run_callbacks hs t)" if "isFinished t" for hs t
    using that by (induction hs arbitrary: t) (simp_all add: render_finished)
  then have "isFinished (step c s)"
    using Cons.prems
    by (cases c) (simp_all add: appendChunk_def emit_def finish_def destroy_def frame_def Let_def)
  moreover have "run (c # cs) s = run cs (step c s)" by (simp add: run_def)
  ultimately show ?case using Cons by simp
qed

section \<open>The claims\<close>

text \<open>
  Claim C1, as amended. The default sanitizer strips a trailing run of three or more
  \<open>-\<close> or \<open>=\<close> characters only when at least one line break (CR or LF) stands before it;
  line breaks may follow the run. Whatever precedes that block is then trimmed. A text that
  does not end in such a block is only trimmed. It is the sanitizer that \<^verbatim>\<open>finish()\<close> applies to
  the buffered text when the options give no \<^verbatim>\<open>sanitize\<close>.
\<close>

theorem defaultSanitize_trailing_rule:
  "(a \<noteq> [] \<and> list_all is_line_break a \<and> 3 \<le> length b \<and> list_all is_rule_char b \<and>
      list_all is_line_break c
      \<longrightarrow> defaultSanitize (p @ a @ b @ c) = trim p) \<and>
   (\<not> (\<exists>p a b c. t = p @ a @ b @ c \<and> a \<noteq> [] \<and> list_all is_line_break a \<and> 3 \<le> length b \<and>
         list_all is_rule_char b \<and> list_all is_line_break c)
      \<longrightarrow> defaultSanitize t = trim t) \<and>
   (opt_sanitize u = None \<and> list_all feeds cs
      \<longrightarrow> getCurrentText (run (cs @ [Finish]) (constructor u)) =
          defaultSanitize (concat (chunks_of cs)))"
proof (intro conjI impI)
  assume "a \<noteq> [] \<and> list_all is_line_break a \<and> 3 \<le> length b \<and> list_all is_rule_char b \<and>
      list_all is_line_break c"
  then show "defaultSanitize (p @ a @ b @ c) = trim p"
    by (simp add: sanitize_block)
next
  assume none: "\<not> (\<exists>p a b c. t = p @ a @ b @ c \<and> a \<noteq> [] \<and> list_all is_line_break a \<and>
      3 \<le> length b \<and> list_all is_rule_char b \<and> list_all is_line_break c)"
  have "replace_rule t = t"
  proof (rule ccontr)
    assume "replace_rule t \<noteq> t"
    with replace_rule_cases [of t] obtain p s where ps: "t = p @ s" "rule_regex s" by blast
    from rule_regex_shape [OF ps(2)] ps(1) none show False by blast
  qed
  then show "defaultSanitize t = trim t" by (simp add: defaultSanitize_def)
next
  assume h: "opt_sanitize u = None \<and> list_all feeds cs"
  define s where "s = run cs (constructor u)"
  have "wf s" "\<not> isFinished s" "textBuffer s = concat (chunks_of cs)" "options s = resolve_options u"
    using run_feed [of cs "constructor u"] h constructor_fields [of u] by (simp_all add: s_def)
  then have "textBuffer (finish s) = sanitize (resolve_options u) (concat (chunks_of cs))"
    by (simp add: finish_active)
  moreover have "sanitize (resolve_options u) = defaultSanitize"
    using h by (simp add: resolve_options_def)
  ultimately show "getCurrentText (run (cs @ [Finish]) (constructor u)) =
      defaultSanitize (concat (chunks_of cs))"
    by (simp add: run_def s_def getCurrentText_def)
qed

theorem defaultSanitize_trailing_rule_witness:
  "defaultSanitize (js ''A\<newline>---\<newline>'') = js ''A'' \<and>
   defaultSanitize (js ''A---'') = js ''A---'' \<and>
   getCurrentText (run [AppendChunk (js ''A\<newline>--''), AppendChunk (js ''-\<newline>''), Finish]
     (constructor no_options)) = js ''A''"
proof -
  have 1: "js ''A\<newline>---\<newline>'' = js ''A'' @ js ''\<newline>'' @ js ''---'' @ js ''\<newline>''"
    by (simp add: js_def)
  have 2: "\<not> (\<exists>p a b c. js ''A---'' = p @ a @ b @ c \<and> a \<noteq> [] \<and> list_all is_line_break a \<and>
      3 \<le> length b \<and> list_all is_rule_char b \<and> list_all is_line_break c)"
  proof
    assume "\<exists>p a b c. js ''A---'' = p @ a @ b @ c \<and> a \<noteq> [] \<and> list_all is_line_break a \<and>
      3 \<le> length b \<and> list_all is_rule_char b \<and> list_all is_line_break c"
    then have "list_ex is_line_break (js ''A---'')" using block_has_break by blast
    then show False by (simp add: js_def is_line_break_def)
  qed
  have 3: "opt_sanitize no_options = None \<and>
      list_all feeds [AppendChunk (js ''A\<newline>--''), AppendChunk (js ''-\<newline>'')]"
    by (simp add: no_options_def)
  show ?thesis
    using defaultSanitize_trailing_rule [of "js ''\<newline>''" "js ''---''" "js ''\<newline>''" "js ''A''"
        "js ''A---''" no_options "[AppendChunk (js ''A\<newline>--''), AppendChunk (js ''-\<newline>'')]"] 2 3
    unfolding 1 [symmetric]
    by (simp add: js_def is_line_break_def is_rule_char_def trim_def is_white_space_def
        sanitize_eval)
qed

text \<open>
  Claim C1 as stated fails: a run with no line break before it, as in \<open>A---\<close>, is not
  stripped.
\<close>

theorem defaultSanitize_needs_line_break_counterexample:
  "defaultSanitize (js ''A---'') = js ''A---'' \<and> defaultSanitize (js ''A---'') \<noteq> js ''A''"
  by (simp add: sanitize_eval)

text \<open>
  Claim C2, as amended. On the terminal render of a finished renderer, \<^verbatim>\<open>cleanup\<close> cancels
  the pending callback and forgets its handle, requests no further frame, and calls
  \<^verbatim>\<open>onComplete\<close> with the buffered text. The reference to the text node is kept as it is:
  only \<^verbatim>\<open>destroy()\<close> clears it.
\<close>

theorem cleanup_on_completion:
  "rafId (cleanup s) = None \<and>
   (\<forall>h. rafId s = Some h \<longrightarrow> h \<notin> set (scheduled (cleanup s))) \<and>
   trace (cleanup s) = trace s @ [OnComplete (textBuffer s)] \<and>
   textNode (cleanup s) = textNode s \<and>
   (isFinished s \<longrightarrow>
      rafId (render s) = None \<and>
      (\<forall>h. rafId s = Some h \<longrightarrow> h \<notin> set (scheduled (render s))) \<and>
      nextRaf (render s) = nextRaf s \<and>
      completions (trace (render s)) = completions (trace s) @ [getCurrentText s] \<and>
      getCurrentText (render s) = getCurrentText s \<and>
      textNode (render s) = textNode s) \<and>
   (wf s \<and> isFinished s \<and> rafId s \<noteq> None \<longrightarrow>
      scheduled (frame s) = [] \<and> rafId (frame s) = None \<and>
      completions (trace (frame s)) = completions (trace s) @ [getCurrentText s])"
proof (intro conjI impI allI)
  show "rafId (cleanup s) = None" "trace (cleanup s) = trace s @ [OnComplete (textBuffer s)]"
    "textNode (cleanup s) = textNode s"
    by (simp_all add: cleanup_fields)
  show "h \<notin> set (scheduled (cleanup s))" if "rafId s = Some h" for h
    using that by (simp add: cleanup_fields)
next
  assume fin: "isFinished s"
  show "rafId (render s) = None" "nextRaf (render s) = nextRaf s"
    "completions (trace (render s)) = completions (trace s) @ [getCurrentText s]"
    "getCurrentText (render s) = getCurrentText s" "textNode (render s) = textNode s"
    by (simp_all add: render_finished [OF fin] getCurrentText_def)
  show "h \<notin> set (scheduled (render s))" if "rafId s = Some h" for h
    using that by (simp add: render_finished [OF fin])
next
  assume h: "wf s \<and> isFinished s \<and> rafId s \<noteq> None"
  then have t: "wf (frame s)" "rafId (frame s) = None"
    "completions (trace (frame s)) = completions (trace s) @ [textBuffer s]"
    using terminal_frame [of s] by simp_all
  then show "scheduled (frame s) = []" "rafId (frame s) = None"
    "completions (trace (frame s)) = completions (trace s) @ [getCurrentText s]"
    by (simp_all add: wf_def getCurrentText_def)
qed

theorem cleanup_on_completion_witness:
  "rafId (finish (appendChunk (js ''A'') (constructor no_options))) = Some 0 \<and>
   isFinished (finish (appendChunk (js ''A'') (constructor no_options))) \<and>
   wf (finish (appendChunk (js ''A'') (constructor no_options))) \<and>
   0 \<notin> set (scheduled (frame (finish (appendChunk (js ''A'') (constructor no_options))))) \<and>
   completions (trace (frame (finish (appendChunk (js ''A'') (constructor no_options))))) = [js ''A''] \<and>
   textNode (render (finish (appendChunk (js ''A'') (constructor no_options)))) = Some 0"
  using cleanup_on_completion [of "finish (appendChunk (js ''A'') (constructor no_options))"]
  by (simp add: renderer_eval sanitize_eval)

text \<open>
  Claim C2 as stated fails: after a completed lifecycle the renderer still holds its text
  node.
\<close>

theorem cleanup_keeps_text_node_counterexample:
  "completions (trace (run [AppendChunk (js ''A''), Finish, Frame] (constructor no_options))) = [js ''A''] \<and>
   rafId (run [AppendChunk (js ''A''), Finish, Frame] (constructor no_options)) = None \<and>
   textNode (run [AppendChunk (js ''A''), Finish, Frame] (constructor no_options)) \<noteq> None"
  by (simp add: renderer_eval sanitize_eval)

text \<open>
  Claim C3, as amended. All calls are made between frame callbacks. From a renderer that is
  running (newly constructed or reset), a lifecycle of appends and frames, then
  \<^verbatim>\<open>finish()\<close>, then late appends or repeated \<^verbatim>\<open>finish()\<close> calls, then the frame that does the
  terminal render, then any calls but \<^verbatim>\<open>reset()\<close>, calls \<^verbatim>\<open>onComplete\<close> exactly once: not
  before that frame, and with the sanitized text, which is also the final text. When
  \<^verbatim>\<open>destroy()\<close> or \<^verbatim>\<open>reset()\<close> comes before that frame, \<^verbatim>\<open>onComplete\<close> is not called for that
  lifecycle, whether \<^verbatim>\<open>finish()\<close> was called or not; \<^verbatim>\<open>destroy()\<close> and \<^verbatim>\<open>reset()\<close> themselves
  never call it.
\<close>

theorem onComplete_exactly_once:
  "(wf s \<and> \<not> isFinished s \<and> list_all feeds cs1 \<and> list_all late cs2 \<and> Reset \<notin> set cs3 \<and>
    list_all feeds cs4 \<longrightarrow>
      completions (trace (run (cs1 @ Finish # cs2) s)) = completions (trace s) \<and>
      completions (trace (run (cs1 @ Finish # cs2 @ Frame # cs3) s)) =
        completions (trace s) @ [sanitize (options s) (getCurrentText s @ concat (chunks_of cs1))] \<and>
      getCurrentText (run (cs1 @ Finish # cs2 @ Frame # cs3) s) =
        sanitize (options s) (getCurrentText s @ concat (chunks_of cs1)) \<and>
      completions (trace (run (cs1 @ Destroy # cs3) s)) = completions (trace s) \<and>
      completions (trace (run (cs1 @ Finish # cs2 @ Destroy # cs3) s)) = completions (trace s) \<and>
      completions (trace (run (cs1 @ Finish # cs2 @ Reset # cs4) s)) = completions (trace s)) \<and>
   trace (destroy s) = trace s \<and> trace (reset s) = trace s"
proof (intro conjI impI)
  assume h: "wf s \<and> \<not> isFinished s \<and> list_all feeds cs1 \<and> list_all late cs2 \<and> Reset \<notin> set cs3 \<and>
    list_all feeds cs4"
  then have wf: "wf s" and act: "\<not> isFinished s" and 1: "list_all feeds cs1"
    and 2: "list_all late cs2" and 3: "Reset \<notin> set cs3" and 4: "list_all feeds cs4" by simp_all
  have f: "wf (run cs1 s)" "\<not> isFinished (run cs1 s)"
    "completions (trace (run cs1 s)) = completions (trace s)"
    using run_feed [OF 1 wf act] by simp_all
  have "run (cs1 @ Finish # cs2) s = run cs2 (finish (run cs1 s))"
    by (simp add: run_def)
  then show "completions (trace (run (cs1 @ Finish # cs2) s)) = completions (trace s)"
    using run_late [OF 2, of "finish (run cs1 s)"] finish_active [OF f(1,2)] f(3) by simp
  show "completions (trace (run (cs1 @ Finish # cs2 @ Frame # cs3) s)) =
      completions (trace s) @ [sanitize (options s) (getCurrentText s @ concat (chunks_of cs1))]"
    using lifecycle_completed(1) [OF 1 2 3 wf act] by (simp add: getCurrentText_def)
  show "getCurrentText (run (cs1 @ Finish # cs2 @ Frame # cs3) s) =
      sanitize (options s) (getCurrentText s @ concat (chunks_of cs1))"
    using lifecycle_completed(2) [OF 1 2 3 wf act] by (simp add: getCurrentText_def)
  show "completions (trace (run (cs1 @ Destroy # cs3) s)) = completions (trace s)"
    using lifecycle_destroyed(1) [OF 1 2 3 wf act] .
  show "completions (trace (run (cs1 @ Finish # cs2 @ Destroy # cs3) s)) = completions (trace s)"
    using lifecycle_destroyed(2) [OF 1 2 3 wf act] .
  show "completions (trace (run (cs1 @ Finish # cs2 @ Reset # cs4) s)) = completions (trace s)"
    using lifecycle_reset [OF 1 2 4 wf act] .
next
  show "trace (destroy s) = trace s"
    by (simp add: destroy_def cancelAnimationFrame_def Let_def split: option.splits)
  show "trace (reset s) = trace s" by (rule reset_trace)
qed

theorem onComplete_exactly_once_witness:
  "wf (constructor no_options) \<and> \<not> isFinished (constructor no_options) \<and>
   completions (trace (run ([AppendChunk (js ''A\<newline>''), Frame, AppendChunk (js ''===\<newline>'')] @ Finish #
       [AppendChunk (js ''x''), Finish] @ Frame # [Frame, Finish, Destroy, Frame])
     (constructor no_options))) = [js ''A''] \<and>
   completions (trace (run ([AppendChunk (js ''A\<newline>''), Frame, AppendChunk (js ''===\<newline>'')] @ Destroy #
       [Frame, Finish, Destroy, Frame]) (constructor no_options))) = [] \<and>
   completions (trace (run ([AppendChunk (js ''A\<newline>''), Frame, AppendChunk (js ''===\<newline>'')] @ Finish #
       [AppendChunk (js ''x''), Finish] @ Reset # [Frame, AppendChunk (js ''B''), Frame])
     (constructor no_options))) = []"
  using onComplete_exactly_once [of "constructor no_options"
      "[AppendChunk (js ''A\<newline>''), Frame, AppendChunk (js ''===\<newline>'')]"
      "[AppendChunk (js ''x''), Finish]" "[Frame, Finish, Destroy, Frame]"
      "[Frame, AppendChunk (js ''B''), Frame]"]
    constructor_fields [of no_options]
  by (simp add: resolve_options_def no_options_def getCurrentText_def sanitize_eval)

text \<open>
  Claim C3 as stated fails: \<^verbatim>\<open>finish()\<close> followed by \<^verbatim>\<open>reset()\<close> before the frame is a lifecycle
  in which \<^verbatim>\<open>finish()\<close> is called and \<^verbatim>\<open>onComplete\<close> is never called.
\<close>

theorem finish_then_reset_counterexample:
  "isFinished (run [AppendChunk (js ''A''), Finish] (constructor no_options)) \<and>
   completions (trace (run [AppendChunk (js ''A''), Finish, Reset, Frame, Frame]
     (constructor no_options))) = []"
  by (simp add: renderer_eval sanitize_eval)

text \<open>
  Claim C4. While the renderer is not finished, each \<^verbatim>\<open>appendChunk\<close> adds its chunk at the
  end of the buffer, and frames in between leave the buffer alone: after every call the
  text is the concatenation of the chunks so far, counted from the construction or from
  the last \<^verbatim>\<open>reset()\<close>, and its length never decreases.
\<close>

theorem appendChunk_concatenates:
  "(\<not> isFinished s \<longrightarrow> getCurrentText (appendChunk chunk s) = getCurrentText s @ chunk) \<and>
   (wf s \<and> \<not> isFinished s \<and> list_all feeds cs \<longrightarrow>
      getCurrentText (run cs s) = getCurrentText s @ concat (chunks_of cs) \<and>
      getCurrentText (run (cs @ [AppendChunk chunk]) s) = getCurrentText (run cs s) @ chunk \<and>
      length (getCurrentText (run cs s)) \<le> length (getCurrentText (run (cs @ [AppendChunk chunk]) s))) \<and>
   (list_all feeds cs \<longrightarrow> getCurrentText (run cs (constructor u)) = concat (chunks_of cs)) \<and>
   (wf s \<and> list_all feeds cs \<longrightarrow> getCurrentText (run cs (reset s)) = concat (chunks_of cs))"
proof (intro conjI impI)
  assume "\<not> isFinished s"
  then show "getCurrentText (appendChunk chunk s) = getCurrentText s @ chunk"
    by (simp add: appendChunk_def getCurrentText_def)
next
  assume h: "wf s \<and> \<not> isFinished s \<and> list_all feeds cs"
  then have f: "\<not> isFinished (run cs s)" "textBuffer (run cs s) = textBuffer s @ concat (chunks_of cs)"
    using run_feed [of cs s] by simp_all
  show "getCurrentText (run cs s) = getCurrentText s @ concat (chunks_of cs)"
    using f by (simp add: getCurrentText_def)
  show step: "getCurrentText (run (cs @ [AppendChunk chunk]) s) = getCurrentText (run cs s) @ chunk"
    using f by (simp add: run_def appendChunk_def getCurrentText_def)
  show "length (getCurrentText (run cs s)) \<le> length (getCurrentText (run (cs @ [AppendChunk chunk]) s))"
    by (simp add: step)
next
  assume "list_all feeds cs"
  then show "getCurrentText (run cs (constructor u)) = concat (chunks_of cs)"
    using run_feed [of cs "constructor u"] constructor_fields [of u]
    by (simp add: getCurrentText_def)
next
  assume "wf s \<and> list_all feeds cs"
  then show "getCurrentText (run cs (reset s)) = concat (chunks_of cs)"
    using run_feed [of cs "reset s"] reset_fields [of s]
    by (simp add: getCurrentText_def)
qed

theorem appendChunk_concatenates_witness:
  "wf (constructor no_options) \<and> \<not> isFinished (constructor no_options) \<and>
   getCurrentText (run [AppendChunk (js ''A\<newline>--''), Frame, AppendChunk (js ''-\<newline>'')]
     (constructor no_options)) = js ''A\<newline>---\<newline>'' \<and>
   getCurrentText (run [AppendChunk (js ''A\<newline>--''), Frame, AppendChunk (js ''-\<newline>'')]
     (reset (constructor no_options))) = js ''A\<newline>---\<newline>'' \<and>
   getCurrentText (appendChunk (js ''B'') (constructor no_options)) = js ''B''"
  using appendChunk_concatenates [of "constructor no_options" "js ''B''"
      "[AppendChunk (js ''A\<newline>--''), Frame, AppendChunk (js ''-\<newline>'')]" no_options]
    constructor_fields [of no_options]
  by (simp add: getCurrentText_def js_def)

text \<open>
  Claim C5, as amended. After any number of chunks appended to a running renderer, the
  next frame callback, when the renderer is still running, renders once and calls
  \<^verbatim>\<open>onUpdate\<close> once, both with the whole buffer (the earlier content followed by all the
  chunks), when the buffer differs from the last rendered text; when it does not differ,
  the callback neither renders nor calls \<^verbatim>\<open>onUpdate\<close> and the display is untouched. When
  \<^verbatim>\<open>finish()\<close> was also called before that callback, it renders the sanitized text, twice
  when that text differs from the last rendered one and once otherwise, and calls
  \<^verbatim>\<open>onUpdate\<close> at most once.
\<close>

theorem frame_coalescing:
  "(\<not> isFinished s \<longrightarrow>
     getCurrentText (fold appendChunk chunks s) = getCurrentText s @ concat chunks \<and>
     renders (trace (render (fold appendChunk chunks s))) =
       renders (trace s) @
       (if getCurrentText s @ concat chunks \<noteq> lastRenderedText s
        then [getCurrentText s @ concat chunks] else []) \<and>
     updates (trace (render (fold appendChunk chunks s))) =
       updates (trace s) @
       (if getCurrentText s @ concat chunks \<noteq> lastRenderedText s
        then [getCurrentText s @ concat chunks] else []) \<and>
     (getCurrentText s @ concat chunks = lastRenderedText s \<longrightarrow>
        container (render (fold appendChunk chunks s)) = container s \<and>
        nodeText (render (fold appendChunk chunks s)) = nodeText s) \<and>
     (getCurrentText s @ concat chunks \<noteq> lastRenderedText s \<longrightarrow>
        (\<forall>n. useTextNode (options s) \<and> textNode s = Some n \<longrightarrow>
           nodeText (render (fold appendChunk chunks s)) n = getCurrentText s @ concat chunks) \<and>
        (\<not> useTextNode (options s) \<longrightarrow>
           container (render (fold appendChunk chunks s)) =
             (case markdownParser (options s) (getCurrentText s @ concat chunks) of
                Inr parsed \<Rightarrow> Html parsed
              | Inl e \<Rightarrow> Plain (getCurrentText s @ concat chunks)))) \<and>
     lastRenderedText (render (fold appendChunk chunks s)) = getCurrentText s @ concat chunks \<and>
     \<not> isFinished (render (fold appendChunk chunks s))) \<and>
   (\<not> isFinished s \<longrightarrow>
     getCurrentText (finish (fold appendChunk chunks s)) =
       sanitize (options s) (getCurrentText s @ concat chunks) \<and>
     renders (trace (render (finish (fold appendChunk chunks s)))) =
       renders (trace s) @
       (if sanitize (options s) (getCurrentText s @ concat chunks) \<noteq> lastRenderedText s
        then [sanitize (options s) (getCurrentText s @ concat chunks)] else []) @
       [sanitize (options s) (getCurrentText s @ concat chunks)] \<and>
     updates (trace (render (finish (fold appendChunk chunks s)))) =
       updates (trace s) @
       (if sanitize (options s) (getCurrentText s @ concat chunks) \<noteq> lastRenderedText s
        then [sanitize (options s) (getCurrentText s @ concat chunks)] else []) \<and>
     isFinished (render (finish (fold appendChunk chunks s))))"
proof (intro conjI)
  show "\<not> isFinished s \<longrightarrow>
     getCurrentText (fold appendChunk chunks s) = getCurrentText s @ concat chunks \<and>
     renders (trace (render (fold appendChunk chunks s))) =
       renders (trace s) @
       (if getCurrentText s @ concat chunks \<noteq> lastRenderedText s
        then [getCurrentText s @ concat chunks] else []) \<and>
     updates (trace (render (fold appendChunk chunks s))) =
       updates (trace s) @
       (if getCurrentText s @ concat chunks \<noteq> lastRenderedText s
        then [getCurrentText s @ concat chunks] else []) \<and>
     (getCurrentText s @ concat chunks = lastRenderedText s \<longrightarrow>
        container (render (fold appendChunk chunks s)) = container s \<and>
        nodeText (render (fold appendChunk chunks s)) = nodeText s) \<and>
     (getCurrentText s @ concat chunks \<noteq> lastRenderedText s \<longrightarrow>
        (\<forall>n. useTextNode (options s) \<and> textNode s = Some n \<longrightarrow>
           nodeText (render (fold appendChunk chunks s)) n = getCurrentText s @ concat chunks) \<and>
        (\<not> useTextNode (options s) \<longrightarrow>
           container (render (fold appendChunk chunks s)) =
             (case markdownParser (options s) (getCurrentText s @ concat chunks) of
                Inr parsed \<Rightarrow> Html parsed
              | Inl e \<Rightarrow> Plain (getCurrentText s @ concat chunks)))) \<and>
     lastRenderedText (render (fold appendChunk chunks s)) = getCurrentText s @ concat chunks \<and>
     \<not> isFinished (render (fold appendChunk chunks s))"
  proof
    assume act: "\<not> isFinished s"
    define s' where "s' = fold appendChunk chunks s"
    have s': "s' = s\<lparr>textBuffer := textBuffer s @ concat chunks\<rparr>"
      unfolding s'_def using act by (rule fold_appendChunk)
    have act': "\<not> isFinished s'" using act by (simp add: s')
    show "getCurrentText (fold appendChunk chunks s) = getCurrentText s @ concat chunks \<and>
     renders (trace (render (fold appendChunk chunks s))) =
       renders (trace s) @
       (if getCurrentText s @ concat chunks \<noteq> lastRenderedText s
        then [getCurrentText s @ concat chunks] else []) \<and>
     updates (trace (render (fold appendChunk chunks s))) =
       updates (trace s) @
       (if getCurrentText s @ concat chunks \<noteq> lastRenderedText s
        then [getCurrentText s @ concat chunks] else []) \<and>
     (getCurrentText s @ concat chunks = lastRenderedText s \<longrightarrow>
        container (render (fold appendChunk chunks s)) = container s \<and>
        nodeText (render (fold appendChunk chunks s)) = nodeText s) \<and>
     (getCurrentText s @ concat chunks \<noteq> lastRenderedText s \<longrightarrow>
        (\<forall>n. useTextNode (options s) \<and> textNode s = Some n \<longrightarrow>
           nodeText (render (fold appendChunk chunks s)) n = getCurrentText s @ concat chunks) \<and>
        (\<not> useTextNode (options s) \<longrightarrow>
           container (render (fold appendChunk chunks s)) =
             (case markdownParser (options s) (getCurrentText s @ concat chunks) of
                Inr parsed \<Rightarrow> Html parsed
              | Inl e \<Rightarrow> Plain (getCurrentText s @ concat chunks)))) \<and>
     lastRenderedText (render (fold appendChunk chunks s)) = getCurrentText s @ concat chunks \<and>
     \<not> isFinished (render (fold appendChunk chunks s))"
      unfolding s'_def [symmetric] getCurrentText_def
      using render_active [OF act'] render_active_shown [OF act']
      by (simp add: renderToDOM_container renderToDOM_nodeText)
        (simp add: s' split: sum.splits)
  qed
next
  show "\<not> isFinished s \<longrightarrow>
     getCurrentText (finish (fold appendChunk chunks s)) =
       sanitize (options s) (getCurrentText s @ concat chunks) \<and>
     renders (trace (render (finish (fold appendChunk chunks s)))) =
       renders (trace s) @
       (if sanitize (options s) (getCurrentText s @ concat chunks) \<noteq> lastRenderedText s
        then [sanitize (options s) (getCurrentText s @ concat chunks)] else []) @
       [sanitize (options s) (getCurrentText s @ concat chunks)] \<and>
     updates (trace (render (finish (fold appendChunk chunks s)))) =
       updates (trace s) @
       (if sanitize (options s) (getCurrentText s @ concat chunks) \<noteq> lastRenderedText s
        then [sanitize (options s) (getCurrentText s @ concat chunks)] else []) \<and>
     isFinished (render (finish (fold appendChunk chunks s)))"
  proof
    assume act: "\<not> isFinished s"
    define t where "t = finish (fold appendChunk chunks s)"
    have t: "isFinished t"
      "textBuffer t = sanitize (options s) (textBuffer s @ concat chunks)"
      "lastRenderedText t = lastRenderedText s" "trace t = trace s"
      unfolding t_def using act by (simp_all add: fold_appendChunk finish_def Let_def)
    show "getCurrentText (finish (fold appendChunk chunks s)) =
       sanitize (options s) (getCurrentText s @ concat chunks) \<and>
     renders (trace (render (finish (fold appendChunk chunks s)))) =
       renders (trace s) @
       (if sanitize (options s) (getCurrentText s @ concat chunks) \<noteq> lastRenderedText s
        then [sanitize (options s) (getCurrentText s @ concat chunks)] else []) @
       [sanitize (options s) (getCurrentText s @ concat chunks)] \<and>
     updates (trace (render (finish (fold appendChunk chunks s)))) =
       updates (trace s) @
       (if sanitize (options s) (getCurrentText s @ concat chunks) \<noteq> lastRenderedText s
        then [sanitize (options s) (getCurrentText s @ concat chunks)] else []) \<and>
     isFinished (render (finish (fold appendChunk chunks s)))"
      unfolding t_def [symmetric] getCurrentText_def
      using render_finished [OF t(1)] by (simp add: t)
  qed
qed

theorem frame_coalescing_witness:
  "\<not> isFinished (constructor no_options) \<and>
   renders (trace (render (fold appendChunk [js ''A'', js ''B'', js ''C''] (constructor no_options)))) =
     [js ''ABC''] \<and>
   updates (trace (render (fold appendChunk [js ''A'', js ''B'', js ''C''] (constructor no_options)))) =
     [js ''ABC''] \<and>
   nodeText (render (fold appendChunk [js ''A'', js ''B'', js ''C''] (constructor no_options))) 0 =
     js ''ABC'' \<and>
   renders (trace (render (fold appendChunk [] (constructor no_options)))) = [] \<and>
   updates (trace (render (fold appendChunk [] (constructor no_options)))) = [] \<and>
   container (render (fold appendChunk [js ''A'', js ''B'']
     (createMarkdownStreamRenderer (\<lambda>text. Inr (text @ text)) no_options))) = Html (js ''ABAB'') \<and>
   renders (trace (render (finish (fold appendChunk [js ''A'', js ''B'', js ''C'']
     (constructor no_options))))) = [js ''ABC'', js ''ABC''] \<and>
   updates (trace (render (finish (fold appendChunk [js ''A'', js ''B'', js ''C'']
     (constructor no_options))))) = [js ''ABC'']"
proof -
  define s where "s = constructor no_options"
  define m where "m = createMarkdownStreamRenderer (\<lambda>text. Inr (text @ text)) no_options"
  have s: "\<not> isFinished s" "getCurrentText s = []" "lastRenderedText s = []" "trace s = []"
    "useTextNode (options s)" "textNode s = Some 0" "sanitize (options s) = defaultSanitize"
    by (simp_all add: s_def renderer_eval js_def)
  have m: "\<not> isFinished m" "getCurrentText m = []" "lastRenderedText m = []" "trace m = []"
    "\<not> useTextNode (options m)" "markdownParser (options m) = (\<lambda>text. Inr (text @ text))"
    by (simp_all add: m_def renderer_eval js_def)
  show ?thesis
    unfolding s_def [symmetric] m_def [symmetric]
    using frame_coalescing [of s "[js ''A'', js ''B'', js ''C'']"] frame_coalescing [of s "[]"]
      frame_coalescing [of m "[js ''A'', js ''B'']"]
    by (simp add: s m sanitize_eval)
qed

text \<open>
  Claim C5 as stated fails: two chunks and \<^verbatim>\<open>finish()\<close> before one frame callback give two
  renders in that callback, of the sanitized text and not of the concatenation.
\<close>

theorem finish_in_interval_counterexample:
  "getCurrentText (run [AppendChunk (js ''A\<newline>''), AppendChunk (js ''---'')]
     (constructor no_options)) = js ''A\<newline>---'' \<and>
   renders (trace (run [AppendChunk (js ''A\<newline>''), AppendChunk (js ''---''), Finish]
     (constructor no_options))) = [] \<and>
   renders (trace (run [AppendChunk (js ''A\<newline>''), AppendChunk (js ''---''), Finish, Frame]
     (constructor no_options))) = [js ''A'', js ''A'']"
  by (simp add: renderer_eval sanitize_eval)

text \<open>
  Claim C6. After \<^verbatim>\<open>finish()\<close> on a running renderer, the next frame ends with a render of
  the sanitized buffer, also when that text equals the last rendered one; the display then
  shows it, the renderer is finished, holds no callback handle, no callback is pending, and
  later frames do nothing.
\<close>

theorem terminal_render:
  "wf s \<and> \<not> isFinished s \<longrightarrow>
     getCurrentText (frame (finish s)) = sanitize (options s) (getCurrentText s) \<and>
     renders (trace (frame (finish s))) =
       renders (trace s) @
       (if sanitize (options s) (getCurrentText s) \<noteq> lastRenderedText s
        then [sanitize (options s) (getCurrentText s)] else []) @
       [sanitize (options s) (getCurrentText s)] \<and>
     (\<forall>n. useTextNode (options s) \<and> textNode s = Some n \<longrightarrow>
        nodeText (frame (finish s)) n = sanitize (options s) (getCurrentText s)) \<and>
     (\<not> useTextNode (options s) \<longrightarrow>
        container (frame (finish s)) =
          (case markdownParser (options s) (sanitize (options s) (getCurrentText s)) of
             Inr parsed \<Rightarrow> Html parsed
           | Inl e \<Rightarrow> Plain (sanitize (options s) (getCurrentText s)))) \<and>
     isFinished (frame (finish s)) \<and> rafId (frame (finish s)) = None \<and>
     scheduled (frame (finish s)) = [] \<and>
     frame (frame (finish s)) = frame (finish s)"
proof
  assume h: "wf s \<and> \<not> isFinished s"
  note f = finish_active [of s]
  have fs: "wf (finish s)" "isFinished (finish s)" "rafId (finish s) \<noteq> None"
    using f h by simp_all
  have fields: "textBuffer (finish s) = sanitize (options s) (textBuffer s)"
    "trace (finish s) = trace s" "options (finish s) = options s"
    "lastRenderedText (finish s) = lastRenderedText s" "textNode (finish s) = textNode s"
    using h by (simp_all add: finish_def Let_def)
  show "getCurrentText (frame (finish s)) = sanitize (options s) (getCurrentText s) \<and>
     renders (trace (frame (finish s))) =
       renders (trace s) @
       (if sanitize (options s) (getCurrentText s) \<noteq> lastRenderedText s
        then [sanitize (options s) (getCurrentText s)] else []) @
       [sanitize (options s) (getCurrentText s)] \<and>
     (\<forall>n. useTextNode (options s) \<and> textNode s = Some n \<longrightarrow>
        nodeText (frame (finish s)) n = sanitize (options s) (getCurrentText s)) \<and>
     (\<not> useTextNode (options s) \<longrightarrow>
        container (frame (finish s)) =
          (case markdownParser (options s) (sanitize (options s) (getCurrentText s)) of
             Inr parsed \<Rightarrow> Html parsed
           | Inl e \<Rightarrow> Plain (sanitize (options s) (getCurrentText s)))) \<and>
     isFinished (frame (finish s)) \<and> rafId (frame (finish s)) = None \<and>
     scheduled (frame (finish s)) = [] \<and>
     frame (frame (finish s)) = frame (finish s)"
    unfolding getCurrentText_def
    using terminal_frame [OF fs] terminal_frame_shown [OF fs]
    by (simp add: fields renderToDOM_container renderToDOM_nodeText split: sum.splits)
qed

theorem terminal_render_witness:
  "wf (frame (appendChunk (js ''A'') (constructor no_options))) \<and>
   \<not> isFinished (frame (appendChunk (js ''A'') (constructor no_options))) \<and>
   lastRenderedText (frame (appendChunk (js ''A'') (constructor no_options))) = js ''A'' \<and>
   renders (trace (frame (finish (frame (appendChunk (js ''A'') (constructor no_options)))))) =
     [js ''A'', js ''A''] \<and>
   nodeText (frame (finish (frame (appendChunk (js ''A'') (constructor no_options))))) 0 = js ''A'' \<and>
   scheduled (frame (finish (frame (appendChunk (js ''A'') (constructor no_options))))) = [] \<and>
   container (frame (finish (appendChunk (js ''A\<newline>---'')
     (createMarkdownStreamRenderer (\<lambda>text. Inr (text @ text)) no_options)))) = Html (js ''AA'') \<and>
   renders (trace (frame (finish (appendChunk (js ''A\<newline>---'')
     (createMarkdownStreamRenderer (\<lambda>text. Inr (text @ text)) no_options))))) = [js ''A'', js ''A'']"
proof -
  define s where "s = frame (appendChunk (js ''A'') (constructor no_options))"
  define m where "m = appendChunk (js ''A\<newline>---'')
     (createMarkdownStreamRenderer (\<lambda>text. Inr (text @ text)) no_options)"
  have s: "wf s" "\<not> isFinished s" "getCurrentText s = js ''A''" "lastRenderedText s = js ''A''"
    "renders (trace s) = [js ''A'']" "useTextNode (options s)" "textNode s = Some 0"
    "sanitize (options s) = defaultSanitize"
    by (simp_all add: s_def renderer_eval js_def)
  have m: "wf m" "\<not> isFinished m" "getCurrentText m = js ''A\<newline>---''" "lastRenderedText m = []"
    "renders (trace m) = []" "\<not> useTextNode (options m)"
    "markdownParser (options m) = (\<lambda>text. Inr (text @ text))" "sanitize (options m) = defaultSanitize"
    by (simp_all add: m_def renderer_eval js_def)
  have d: "defaultSanitize (js ''A'') = js ''A''" "defaultSanitize (js ''A\<newline>---'') = js ''A''"
    by (simp_all add: sanitize_eval)
  show ?thesis
    unfolding s_def [symmetric] m_def [symmetric]
    using terminal_render [of s] terminal_render [of m]
    by (simp add: s m d) (simp add: js_def)
qed

text \<open>
  Claim C7. On a finished renderer (after \<^verbatim>\<open>finish()\<close>, after the terminal render, after
  \<^verbatim>\<open>destroy()\<close>), \<^verbatim>\<open>appendChunk\<close> changes nothing but the trace, where it leaves the warning:
  the text stays the same.
\<close>

theorem appendChunk_after_finish:
  "(isFinished s \<longrightarrow>
      appendChunk chunk s = s\<lparr>trace := trace s @ [Warn AppendAfterFinish]\<rparr> \<and>
      getCurrentText (appendChunk chunk s) = getCurrentText s \<and>
      isFinished (appendChunk chunk s)) \<and>
   isFinished (finish s) \<and> isFinished (destroy s) \<and>
   (isFinished s \<longrightarrow> isFinished (render s)) \<and>
   getCurrentText (appendChunk chunk (finish s)) = getCurrentText (finish s) \<and>
   getCurrentText (appendChunk chunk (destroy s)) = getCurrentText (destroy s) \<and>
   warnings (trace (appendChunk chunk (destroy s))) = warnings (trace (destroy s)) @ [AppendAfterFinish]"
proof -
  have fin: "isFinished (finish s)" by (simp add: finish_def Let_def)
  have des: "isFinished (destroy s)" by (simp add: destroy_def Let_def)
  have late: "appendChunk chunk t = t\<lparr>trace := trace t @ [Warn AppendAfterFinish]\<rparr>"
    if "isFinished t" for t
    using that by (simp add: appendChunk_def emit_def)
  show ?thesis
    using fin des late [OF fin] late [OF des] late [of s] render_finished(4) [of s]
    by (simp add: getCurrentText_def trace_append)
qed

theorem appendChunk_after_finish_witness:
  "isFinished (frame (finish (appendChunk (js ''A'') (constructor no_options)))) \<and>
   getCurrentText (appendChunk (js ''x'')
     (frame (finish (appendChunk (js ''A'') (constructor no_options))))) = js ''A'' \<and>
   warnings (trace (appendChunk (js ''x'')
     (frame (finish (appendChunk (js ''A'') (constructor no_options)))))) = [AppendAfterFinish]"
  using appendChunk_after_finish [of "frame (finish (appendChunk (js ''A'') (constructor no_options)))"
      "js ''x''"]
  by (simp add: renderer_eval sanitize_eval)

text \<open>
  Claim C8. A second \<^verbatim>\<open>finish()\<close> changes nothing: \<^verbatim>\<open>finish\<close> is the identity on a
  finished renderer, so the sanitizer is applied once; and a lifecycle with repeated
  \<^verbatim>\<open>finish()\<close> calls before and after the terminal render calls \<^verbatim>\<open>onComplete\<close> exactly once,
  with the text sanitized once.
\<close>

theorem finish_idempotent:
  "finish (finish s) = finish s \<and>
   (isFinished s \<longrightarrow> finish s = s) \<and>
   (\<not> isFinished s \<longrightarrow> getCurrentText (finish (finish s)) = sanitize (options s) (getCurrentText s)) \<and>
   (Reset \<notin> set cs2 \<longrightarrow> run (cs1 @ Finish # cs2 @ [Finish]) s = run (cs1 @ Finish # cs2) s) \<and>
   (wf s \<and> \<not> isFinished s \<and> list_all feeds cs1 \<and> list_all late cs2 \<and> Reset \<notin> set cs3 \<longrightarrow>
      completions (trace (run (cs1 @ Finish # (cs2 @ [Finish]) @ Frame # cs3 @ [Finish]) s)) =
        completions (trace s) @ [sanitize (options s) (getCurrentText s @ concat (chunks_of cs1))] \<and>
      getCurrentText (run (cs1 @ Finish # (cs2 @ [Finish]) @ Frame # cs3 @ [Finish]) s) =
        sanitize (options s) (getCurrentText s @ concat (chunks_of cs1)))"
proof (intro conjI impI)
  show "finish (finish s) = finish s" by (simp add: finish_def Let_def)
  show "finish s = s" if "isFinished s" using that by (simp add: finish_def)
  show "getCurrentText (finish (finish s)) = sanitize (options s) (getCurrentText s)"
    if "\<not> isFinished s"
    using that by (simp add: finish_def Let_def getCurrentText_def)
next
  assume r: "Reset \<notin> set cs2"
  have "isFinished (finish (run cs1 s))" by (simp add: finish_def Let_def)
  then have "isFinished (run cs2 (finish (run cs1 s)))" using r by (intro run_finished)
  then have "finish (run cs2 (finish (run cs1 s))) = run cs2 (finish (run cs1 s))"
    by (simp add: finish_def)
  then show "run (cs1 @ Finish # cs2 @ [Finish]) s = run (cs1 @ Finish # cs2) s"
    by (simp add: run_def)
next
  assume h: "wf s \<and> \<not> isFinished s \<and> list_all feeds cs1 \<and> list_all late cs2 \<and> Reset \<notin> set cs3"
  then have a: "list_all feeds cs1" "list_all late (cs2 @ [Finish])" "Reset \<notin> set (cs3 @ [Finish])"
    "wf s" "\<not> isFinished s" by simp_all
  show "completions (trace (run (cs1 @ Finish # (cs2 @ [Finish]) @ Frame # cs3 @ [Finish]) s)) =
      completions (trace s) @ [sanitize (options s) (getCurrentText s @ concat (chunks_of cs1))]"
    using lifecycle_completed(1) [OF a] by (simp add: getCurrentText_def)
  show "getCurrentText (run (cs1 @ Finish # (cs2 @ [Finish]) @ Frame # cs3 @ [Finish]) s) =
      sanitize (options s) (getCurrentText s @ concat (chunks_of cs1))"
    using lifecycle_completed(2) [OF a] by (simp add: getCurrentText_def)
qed

theorem finish_idempotent_witness:
  "wf (constructor no_options) \<and> \<not> isFinished (constructor no_options) \<and>
   isFinished (finish (constructor no_options)) \<and>
   completions (trace (run ([AppendChunk (js ''A\<newline>---\<newline>---'')] @ Finish # ([] @ [Finish]) @ Frame # [] @ [Finish])
     (constructor no_options))) = [js ''A\<newline>---''] \<and>
   getCurrentText (run ([AppendChunk (js ''A\<newline>---\<newline>---'')] @ Finish # ([] @ [Finish]) @ Frame # [] @ [Finish])
     (constructor no_options)) = js ''A\<newline>---'' \<and>
   defaultSanitize (defaultSanitize (js ''A\<newline>---\<newline>---'')) = js ''A''"
  using finish_idempotent [of "constructor no_options" "[]" "[AppendChunk (js ''A\<newline>---\<newline>---'')]" "[]"]
    finish_idempotent [of "finish (constructor no_options)" "[]" "[]" "[]"]
    constructor_fields [of no_options]
  by (simp add: resolve_options_def no_options_def getCurrentText_def sanitize_eval finish_def)

text \<open>
  Claim C9. Without the text node, when the parser throws on the buffered text,
  \<^verbatim>\<open>renderToDOM\<close> returns normally, having logged the warning and put the buffered text into
  the container as plain text. The frame callback then goes on as usual: it calls
  \<^verbatim>\<open>onUpdate\<close> and requests the next frame while the renderer is running, and completes the
  lifecycle when it is finished.
\<close>

theorem render_failure_fallback:
  "\<not> useTextNode (options s) \<and> markdownParser (options s) (textBuffer s) = Inl e \<longrightarrow>
     renderToDOM s =
       s\<lparr>trace := trace s @ [Rendered (textBuffer s), Warn MarkdownFallback],
          container := Plain (textBuffer s)\<rparr> \<and>
     (\<not> isFinished s \<and> textBuffer s \<noteq> lastRenderedText s \<longrightarrow>
        container (render s) = Plain (textBuffer s) \<and>
        warnings (trace (render s)) = warnings (trace s) @ [MarkdownFallback] \<and>
        updates (trace (render s)) = updates (trace s) @ [textBuffer s] \<and>
        rafId (render s) = Some (nextRaf s) \<and>
        nextRaf s \<in> set (scheduled (render s))) \<and>
     (isFinished s \<longrightarrow>
        container (render s) = Plain (textBuffer s) \<and>
        completions (trace (render s)) = completions (trace s) @ [textBuffer s]) \<and>
     (wf s \<and> \<not> isFinished s \<longrightarrow> wf (frame s) \<and> \<not> isFinished (frame s))"
proof
  assume h: "\<not> useTextNode (options s) \<and> markdownParser (options s) (textBuffer s) = Inl e"
  then have fb: "renderToDOM s =
       s\<lparr>trace := trace s @ [Rendered (textBuffer s), Warn MarkdownFallback],
          container := Plain (textBuffer s)\<rparr>"
    by (simp add: renderToDOM_fallback)
  have act: "container (render s) = Plain (textBuffer s) \<and>
        warnings (trace (render s)) = warnings (trace s) @ [MarkdownFallback] \<and>
        updates (trace (render s)) = updates (trace s) @ [textBuffer s] \<and>
        rafId (render s) = Some (nextRaf s) \<and>
        nextRaf s \<in> set (scheduled (render s))"
    if "\<not> isFinished s \<and> textBuffer s \<noteq> lastRenderedText s"
    using that render_active [of s] render_active_shown [of s]
    by (simp add: fb trace_append)
  have fin: "container (render s) = Plain (textBuffer s) \<and>
        completions (trace (render s)) = completions (trace s) @ [textBuffer s]"
    if "isFinished s"
    using that render_finished [of s] render_finished_shown [of s] by (simp add: fb)
  have loop: "wf (frame s) \<and> \<not> isFinished (frame s)" if "wf s \<and> \<not> isFinished s"
    using that step_feed [of s Frame] by simp
  show "renderToDOM s =
       s\<lparr>trace := trace s @ [Rendered (textBuffer s), Warn MarkdownFallback],
          container := Plain (textBuffer s)\<rparr> \<and>
     (\<not> isFinished s \<and> textBuffer s \<noteq> lastRenderedText s \<longrightarrow>
        container (render s) = Plain (textBuffer s) \<and>
        warnings (trace (render s)) = warnings (trace s) @ [MarkdownFallback] \<and>
        updates (trace (render s)) = updates (trace s) @ [textBuffer s] \<and>
        rafId (render s) = Some (nextRaf s) \<and>
        nextRaf s \<in> set (scheduled (render s))) \<and>
     (isFinished s \<longrightarrow>
        container (render s) = Plain (textBuffer s) \<and>
        completions (trace (render s)) = completions (trace s) @ [textBuffer s]) \<and>
     (wf s \<and> \<not> isFinished s \<longrightarrow> wf (frame s) \<and> \<not> isFinished (frame s))"
    using fb act fin loop by blast
qed

theorem render_failure_fallback_witness:
  "container (render (appendChunk (js ''[a](b'')
       (createMarkdownStreamRenderer (\<lambda>text. Inl (Exn [])) no_options))) = Plain (js ''[a](b'') \<and>
   warnings (trace (render (appendChunk (js ''[a](b'')
       (createMarkdownStreamRenderer (\<lambda>text. Inl (Exn [])) no_options)))) = [MarkdownFallback] \<and>
   rafId (render (appendChunk (js ''[a](b'')
       (createMarkdownStreamRenderer (\<lambda>text. Inl (Exn [])) no_options))) = Some 1 \<and>
   \<not> isFinished (frame (appendChunk (js ''[a](b'')
       (createMarkdownStreamRenderer (\<lambda>text. Inl (Exn [])) no_options))) \<and>
   container (render (finish (appendChunk (js ''[a](b'')
       (createMarkdownStreamRenderer (\<lambda>text. Inl (Exn [])) no_options)))) = Plain (js ''[a](b'') \<and>
   completions (trace (render (finish (appendChunk (js ''[a](b'')
       (createMarkdownStreamRenderer (\<lambda>text. Inl (Exn [])) no_options))))) = [js ''[a](b'']"
proof -
  define s where "s = appendChunk (js ''[a](b'')
       (createMarkdownStreamRenderer (\<lambda>text. Inl (Exn [])) no_options)"
  have s: "s = \<lparr>textBuffer = js ''[a](b'', lastRenderedText = [], rafId = Some 0,
      isFinished = False, textNode = None,
      options = \<lparr>sanitize = defaultSanitize, useTextNode = False,
               markdownParser = (\<lambda>text. Inl (Exn []))\<rparr>,
      container = Empty, nodeText = (\<lambda>n. []), nextNode = 0, scheduled = [0], nextRaf = 1,
      trace = []\<rparr>"
    unfolding s_def
    by (simp add: createMarkdownStreamRenderer_def constructor_def startRenderLoop_def
        requestAnimationFrame_def initializeContainer_def resolve_options_def no_options_def
        appendChunk_def Let_def)
  have hyp: "\<not> useTextNode (options s) \<and> markdownParser (options s) (textBuffer s) = Inl (Exn [])"
    "\<not> isFinished s \<and> textBuffer s \<noteq> lastRenderedText s" "wf s \<and> \<not> isFinished s"
    by (simp_all add: s wf_def js_def)
  have val: "textBuffer s = js ''[a](b''" "warnings (trace s) = []" "nextRaf s = 1"
    by (simp_all add: s)
  have d: "defaultSanitize (js ''[a](b'') = js ''[a](b''"
    by (simp add: sanitize_eval)
  have f: "\<not> useTextNode (options (finish s)) \<and>
      markdownParser (options (finish s)) (textBuffer (finish s)) = Inl (Exn [])"
    "isFinished (finish s)" "textBuffer (finish s) = js ''[a](b''"
    "completions (trace (finish s)) = []"
    by (simp_all add: s finish_def Let_def d)
  show ?thesis
    unfolding s_def [symmetric]
    using render_failure_fallback [of s "Exn []"] render_failure_fallback [of "finish s" "Exn []"]
      hyp f
    by (simp add: val)
qed


text \<open>
  Claim C10. One application removes one trailing block: of two rule lines at the end, the
  first survives and the result ends with it. The characters \<open>-\<close> and \<open>=\<close> may be mixed
  within a run.
\<close>

theorem defaultSanitize_one_block:
  "(a1 \<noteq> [] \<and> list_all is_line_break a1 \<and> 3 \<le> length b1 \<and> list_all is_rule_char b1 \<and>
    a2 \<noteq> [] \<and> list_all is_line_break a2 \<and> 3 \<le> length b2 \<and> list_all is_rule_char b2 \<and>
    list_all is_line_break c
      \<longrightarrow> defaultSanitize (p @ a1 @ b1 @ a2 @ b2 @ c) = dropWhile is_white_space (p @ a1) @ b1) \<and>
   defaultSanitize (js ''A\<newline>---\<newline>---'') = js ''A\<newline>---'' \<and>
   defaultSanitize (js ''A\<newline>-=-'') = js ''A''"
proof (intro conjI impI)
  assume h: "a1 \<noteq> [] \<and> list_all is_line_break a1 \<and> 3 \<le> length b1 \<and> list_all is_rule_char b1 \<and>
    a2 \<noteq> [] \<and> list_all is_line_break a2 \<and> 3 \<le> length b2 \<and> list_all is_rule_char b2 \<and>
    list_all is_line_break c"
  then have "defaultSanitize ((p @ a1 @ b1) @ a2 @ b2 @ c) = trim (p @ a1 @ b1)"
    by (intro sanitize_block) simp_all
  moreover have "trim ((p @ a1) @ b1) = dropWhile is_white_space (p @ a1) @ b1"
    using h by (intro trim_keeps_rule) auto
  ultimately show "defaultSanitize (p @ a1 @ b1 @ a2 @ b2 @ c) =
      dropWhile is_white_space (p @ a1) @ b1"
    by simp
next
  show "defaultSanitize (js ''A\<newline>---\<newline>---'') = js ''A\<newline>---''"
    by (simp add: sanitize_eval)
  show "defaultSanitize (js ''A\<newline>-=-'') = js ''A''"
    by (simp add: sanitize_eval)
qed

theorem defaultSanitize_one_block_witness:
  "defaultSanitize (js ''A\<newline>===\<newline>\<newline>-=-=\<newline>'') = js ''A\<newline>===''"
proof -
  have 1: "js ''A\<newline>===\<newline>\<newline>-=-=\<newline>'' =
      js ''A'' @ js ''\<newline>'' @ js ''==='' @ js ''\<newline>\<newline>'' @ js ''-=-='' @ js ''\<newline>''"
    by (simp add: js_def)
  show ?thesis
    using defaultSanitize_one_block [of "js ''\<newline>''" "js ''===''" "js ''\<newline>\<newline>''" "js ''-=-=''"
        "js ''\<newline>''" "js ''A''"]
    unfolding 1 [symmetric]
    by (simp add: js_def is_line_break_def is_rule_char_def is_white_space_def)
qed

end
